theory Spec2Isabelle
  imports Main "HOL-Library.Word" "HOL-Library.Multiset"
begin

section \<open>Data model of unfinished\_goroutines.go\<close>

text \<open>
  The program reads a Go execution trace and reports the goroutines that never ended.
  The types \<open>trace.Event\<close> and \<open>trace.Frame\<close> belong to Go's \<open>internal/trace\<close>;
  only the fields the program reads are kept. \<open>Line\<close> is a Go \<open>int\<close> that is only
  printed, \<open>Ts\<close> is an \<open>int64\<close> that is only copied and compared with zero. The
  arguments of an event are a sequence; reading \<open>Args[0]\<close> of an empty one is the panic
  \<open>IndexOutOfRange\<close> below. A stack holds its frames themselves: the parser never
  leaves a nil frame in it. The link of an event is the linked event, of which only the owner
  is read.
\<close>

record Frame =
  Fn :: string
  File :: string
  Line :: int

type_synonym Stack = "Frame list"

datatype Event = Event
  (Type: "8 word")
  (Ts: "64 word")
  (G: "64 word")
  (Stk: Stack)
  (Args: "64 word list")
  (Link: "Event option")

record Goroutine =
  ID :: "64 word"
  ParentID :: "64 word"
  parentStack :: Stack
  name :: string
  create :: "64 word"
  destroy :: "64 word"
  lastStack :: Stack
  lastState :: string

text \<open>
  A \<open>*Goroutine\<close> is an address in a store of allocated records; allocation appends to
  the store. The map \<open>map[uint64]*Goroutine\<close> sends identifiers to addresses; a missing
  key is Go's nil result. Both run-time panics of the program are values. Functions that
  work on records take the store and return it, so that what they write, or do not write,
  can be stated.
\<close>

type_synonym ptr = nat
type_synonym store = "Goroutine list"
type_synonym gmap = "64 word \<rightharpoonup> ptr"

datatype panic = NilDereference | IndexOutOfRange

text \<open>The two event kinds the program switches on, numbered as in its \<open>states\<close> table.\<close>

definition EvGoCreate :: "8 word" where
  "EvGoCreate = 13"

definition EvGoEnd :: "8 word" where
  "EvGoEnd = 15"

definition states_table :: "(8 word \<times> string) list" where
  "states_table =
    [(0, ''EvNone''), (1, ''EvBatch''), (2, ''EvFrequency''), (3, ''EvStack''),
     (4, ''EvGomaxprocs''), (5, ''EvProcStart''), (6, ''EvProcStop''), (7, ''EvGCStart''),
     (8, ''EvGCDone''), (9, ''EvGCScanStart''), (10, ''EvGCScanDone''),
     (11, ''EvGCSweepStart''), (12, ''EvGCSweepDone''), (13, ''EvGoCreate''),
     (14, ''EvGoStart''), (15, ''EvGoEnd''), (16, ''EvGoStop''), (17, ''EvGoSched''),
     (18, ''EvGoPreempt''), (19, ''EvGoSleep''), (20, ''EvGoBlock''), (21, ''EvGoUnblock''),
     (22, ''EvGoBlockSend''), (23, ''EvGoBlockRecv''), (24, ''EvGoBlockSelect''),
     (25, ''EvGoBlockSync''), (26, ''EvGoBlockCond''), (27, ''EvGoBlockNet''),
     (28, ''EvGoSysCall''), (29, ''EvGoSysExit''), (30, ''EvGoSysBlock''),
     (31, ''EvGoWaiting''), (32, ''EvGoInSyscall''), (33, ''EvHeapAlloc''),
     (34, ''EvNextGC''), (35, ''EvTimerGoroutine''), (36, ''EvFutileWakeup''),
     (37, ''EvCount'')]"

text \<open>Indexing a Go map with a missing key gives the zero value, here the empty string.\<close>

definition states :: "8 word \<Rightarrow> string" where
  "states t = (case map_of states_table t of None \<Rightarrow> [] | Some s \<Rightarrow> s)"

subsection \<open>Rendering a stack\<close>

definition digit_char :: "nat \<Rightarrow> char" where
  "digit_char n = ''0123456789'' ! n"

fun string_of_nat :: "nat \<Rightarrow> string" where
  "string_of_nat n =
     (if n < 10 then [digit_char n] else string_of_nat (n div 10) @ [digit_char (n mod 10)])"

declare string_of_nat.simps [simp del]

definition string_of_int :: "int \<Rightarrow> string" where
  "string_of_int i = (if i < 0 then CHR ''-'' # string_of_nat (nat (- i)) else string_of_nat (nat i))"

text \<open>\<open>fmt.Sprintf("%s [%s:%d]", frame.Fn, frame.File, frame.Line)\<close>\<close>

definition Frame_String :: "Frame \<Rightarrow> string" where
  "Frame_String frame = Fn frame @ '' ['' @ File frame @ '':'' @ string_of_int (Line frame) @ '']''"

text \<open>\<open>Stack.String\<close>: the frames one per line, a newline before every frame but the first.\<close>

fun Stack_String_from :: "nat \<Rightarrow> Stack \<Rightarrow> string" where
  "Stack_String_from frameIdx [] = []"
| "Stack_String_from frameIdx (frame # s) =
     (if frameIdx \<noteq> 0 then [CHR 0x0A] else []) @ Frame_String frame
       @ Stack_String_from (Suc frameIdx) s"

definition Stack_String :: "Stack \<Rightarrow> string" where
  "Stack_String s = Stack_String_from 0 s"

section \<open>events2gs: reconstruction of the goroutines\<close>

text \<open>\<open>&Goroutine{ID: ev.Args[0], create: ev.Ts}\<close>: every other field has its zero value.\<close>

definition newGoroutine :: "64 word \<Rightarrow> 64 word \<Rightarrow> Goroutine" where
  "newGoroutine gid ts =
     \<lparr>ID = gid, ParentID = 0, parentStack = [], name = [], create = ts, destroy = 0,
      lastStack = [], lastState = []\<rparr>"

text \<open>Reading and writing through a pointer; an address outside the store stands for nil.\<close>

definition load :: "store \<Rightarrow> ptr \<Rightarrow> panic + Goroutine" where
  "load h p = (if p < length h then Inr (h ! p) else Inl NilDereference)"

definition modify :: "store \<Rightarrow> ptr \<Rightarrow> (Goroutine \<Rightarrow> Goroutine) \<Rightarrow> panic + store" where
  "modify h p f = (if p < length h then Inr (h[p := f (h ! p)]) else Inl NilDereference)"

text \<open>The \<open>switch ev.Type\<close> of the first loop.\<close>

definition kind_specific :: "Event \<Rightarrow> gmap \<times> store \<Rightarrow> panic + gmap \<times> store" where
  "kind_specific ev s =
     (case s of (goroutines, h) \<Rightarrow>
        if Type ev = EvGoCreate then
          (case Args ev of
             [] \<Rightarrow> Inl IndexOutOfRange
           | a # _ \<Rightarrow> Inr (goroutines(a \<mapsto> length h), h @ [newGoroutine a (Ts ev)]))
        else if Type ev = EvGoEnd then
          (case goroutines (G ev) of
             None \<Rightarrow> Inl NilDereference
           | Some g \<Rightarrow>
               (case modify h g (\<lambda>r. r\<lparr>destroy := Ts ev\<rparr>) of
                  Inl e \<Rightarrow> Inl e
                | Inr h' \<Rightarrow> Inr (goroutines, h')))
        else Inr s)"

text \<open>What the first loop writes to the record of the goroutine owning the event.\<close>

definition observe :: "Event \<Rightarrow> Goroutine \<Rightarrow> Goroutine" where
  "observe ev g =
     (let g1 = g\<lparr>lastState := states (Type ev), lastStack := Stk ev\<rparr>
      in if length (Stk ev) > 0 \<and> name g1 = [] then g1\<lparr>name := Fn (Stk ev ! 0)\<rparr> else g1)"

definition pass1_step :: "Event \<Rightarrow> gmap \<times> store \<Rightarrow> panic + gmap \<times> store" where
  "pass1_step ev s =
     (case kind_specific ev s of
        Inl e \<Rightarrow> Inl e
      | Inr (goroutines, h) \<Rightarrow>
          (case goroutines (G ev) of
             None \<Rightarrow> Inr (goroutines, h)
           | Some g \<Rightarrow>
               (case modify h g (observe ev) of
                  Inl e \<Rightarrow> Inl e
                | Inr h' \<Rightarrow> Inr (goroutines, h'))))"

fun pass1 :: "Event list \<Rightarrow> gmap \<times> store \<Rightarrow> panic + gmap \<times> store" where
  "pass1 [] s = Inr s"
| "pass1 (ev # events) s =
     (case pass1_step ev s of Inl e \<Rightarrow> Inl e | Inr s' \<Rightarrow> pass1 events s')"

text \<open>The second loop: parent and child.\<close>

definition pass2_step :: "Event \<Rightarrow> gmap \<times> store \<Rightarrow> panic + gmap \<times> store" where
  "pass2_step ev s =
     (case s of (goroutines, h) \<Rightarrow>
        if Type ev \<noteq> EvGoCreate then Inr s
        else
          (case Link ev of
             None \<Rightarrow> Inr s
           | Some l \<Rightarrow>
               (case goroutines (G l) of
                  None \<Rightarrow> Inr s
                | Some child \<Rightarrow>
                    (case modify h child (\<lambda>r. r\<lparr>ParentID := G ev, parentStack := Stk ev\<rparr>) of
                       Inl e \<Rightarrow> Inl e
                     | Inr h' \<Rightarrow> Inr (goroutines, h')))))"

fun pass2 :: "Event list \<Rightarrow> gmap \<times> store \<Rightarrow> panic + gmap \<times> store" where
  "pass2 [] s = Inr s"
| "pass2 (ev # events) s =
     (case pass2_step ev s of Inl e \<Rightarrow> Inl e | Inr s' \<Rightarrow> pass2 events s')"

definition events2gs :: "Event list \<Rightarrow> panic + gmap \<times> store" where
  "events2gs events =
     (case pass1 events (Map.empty, []) of
        Inl e \<Rightarrow> Inl e
      | Inr s \<Rightarrow> pass2 events s)"

section \<open>Ranging over a Go map\<close>

text \<open>
  \<open>for k, v := range m\<close> visits every entry of \<open>m\<close> once, in an order the language
  leaves open. The order is an argument: a list of keys. The loop sees the entries of the
  keys listed, in that order; the list is an order of iteration of \<open>m\<close> when it holds
  every key of \<open>m\<close> exactly once.
\<close>

fun range_map :: "('k \<rightharpoonup> 'v) \<Rightarrow> 'k list \<Rightarrow> ('k \<times> 'v) list" where
  "range_map m [] = []"
| "range_map m (k # ks) =
     (case m k of None \<Rightarrow> range_map m ks | Some v \<Rightarrow> (k, v) # range_map m ks)"

definition iteration_order :: "('k \<rightharpoonup> 'v) \<Rightarrow> 'k list \<Rightarrow> bool" where
  "iteration_order m ks \<longleftrightarrow> distinct ks \<and> set ks = dom m"

section \<open>unfinishedGs: the goroutines that never ended\<close>

fun unfinishedGs_loop :: "(64 word \<times> ptr) list \<Rightarrow> gmap \<times> store \<Rightarrow> panic + gmap \<times> store" where
  "unfinishedGs_loop [] s = Inr s"
| "unfinishedGs_loop ((gid, g) # rest) (unfinished, h) =
     (case load h g of
        Inl e \<Rightarrow> Inl e
      | Inr r \<Rightarrow>
          if destroy r \<noteq> 0 then unfinishedGs_loop rest (unfinished, h)
          else unfinishedGs_loop rest (unfinished(gid \<mapsto> g), h))"

definition unfinishedGs :: "64 word list \<Rightarrow> gmap \<Rightarrow> store \<Rightarrow> panic + gmap \<times> store" where
  "unfinishedGs ks gs h = unfinishedGs_loop (range_map gs ks) (Map.empty, h)"

section \<open>uniq: grouping by name, state and stack\<close>

text \<open>
  The closure \<open>hash\<close> writes the name, the last state and the rendered last stack to an
  MD5 hash and prints the digest in hexadecimal. \<open>crypto/md5\<close> is Go's library: the
  digest of the bytes written, in hexadecimal, is the argument \<open>md5hex\<close>.
\<close>

definition hash :: "(string \<Rightarrow> string) \<Rightarrow> Goroutine \<Rightarrow> string" where
  "hash md5hex g = md5hex (name g @ lastState g @ Stack_String (lastStack g))"

type_synonym groups = "string \<rightharpoonup> ptr list"

fun uniq_group ::
  "(string \<Rightarrow> string) \<Rightarrow> (64 word \<times> ptr) list \<Rightarrow> groups \<times> store \<Rightarrow> panic + groups \<times> store" where
  "uniq_group md5hex [] s = Inr s"
| "uniq_group md5hex ((gid, g) # rest) (groupsMap, h) =
     (case load h g of
        Inl e \<Rightarrow> Inl e
      | Inr r \<Rightarrow>
          (let d = hash md5hex r;
               groupsMap1 = (if groupsMap d = None then groupsMap(d \<mapsto> []) else groupsMap);
               groupsMap2 = groupsMap1(d \<mapsto> (case groupsMap1 d of None \<Rightarrow> [] | Some grp \<Rightarrow> grp) @ [g])
           in uniq_group md5hex rest (groupsMap2, h)))"

text \<open>The second loop appends every group of \<open>groupsMap\<close> to \<open>groupsList\<close>.\<close>

definition collect :: "groups \<Rightarrow> string list \<Rightarrow> ptr list list" where
  "collect groupsMap hs = map snd (range_map groupsMap hs)"

text \<open>The methods of \<open>byLen\<close>.\<close>

definition byLen_Len :: "'a list list \<Rightarrow> nat" where
  "byLen_Len b = length b"

definition byLen_Swap :: "'a list list \<Rightarrow> nat \<Rightarrow> nat \<Rightarrow> 'a list list" where
  "byLen_Swap b i j = b[i := b ! j, j := b ! i]"

definition byLen_Less :: "'a list list \<Rightarrow> nat \<Rightarrow> nat \<Rightarrow> bool" where
  "byLen_Less b i j \<longleftrightarrow> length (b ! i) > length (b ! j)"

text \<open>
  \<open>sort.Sort\<close> is Go's library. It is an argument too, and all that is asked of it is
  what its documentation promises: it rearranges the slice, and afterwards no element is
  \<open>Less\<close> than an element before it. It need not be stable.
\<close>

definition sorts_byLen :: "('a list list \<Rightarrow> 'a list list) \<Rightarrow> bool" where
  "sorts_byLen sort_Sort \<longleftrightarrow>
     (\<forall>b. mset (sort_Sort b) = mset b \<and>
          (\<forall>i j. i < j \<and> j < byLen_Len (sort_Sort b) \<longrightarrow> \<not> byLen_Less (sort_Sort b) j i))"

definition uniq ::
  "(string \<Rightarrow> string) \<Rightarrow> (ptr list list \<Rightarrow> ptr list list) \<Rightarrow> 64 word list \<Rightarrow> string list
     \<Rightarrow> gmap \<Rightarrow> store \<Rightarrow> panic + ptr list list \<times> store" where
  "uniq md5hex sort_Sort ks hs gs h =
     (case uniq_group md5hex (range_map gs ks) (Map.empty, h) of
        Inl e \<Rightarrow> Inl e
      | Inr (groupsMap, h') \<Rightarrow> Inr (sort_Sort (collect groupsMap hs), h'))"

text \<open>
  A sort that keeps its promise, by insertion with \<open>Less\<close> on the elements; it is the
  sort the examples below run.
\<close>

fun insert_byLen :: "'a list \<Rightarrow> 'a list list \<Rightarrow> 'a list list" where
  "insert_byLen x [] = [x]"
| "insert_byLen x (y # ys) =
     (if length y \<ge> length x then y # insert_byLen x ys else x # y # ys)"

definition insertion_sort :: "'a list list \<Rightarrow> 'a list list" where
  "insertion_sort b = foldr insert_byLen b []"

section \<open>sort.Sort through the methods of byLen\<close>

text \<open>
  \<open>sort.Sort\<close> reaches the slice only through \<open>Len\<close>, \<open>Less\<close> and \<open>Swap\<close> of
  \<open>sort.Interface\<close>. Where a property holds for every sort that keeps the promise above,
  the sort stays an argument of \<open>uniq\<close>. Where the order of the groups is the property, the
  sort is run: it is the insertion sort of Go's \<open>sort\<close> package, the one \<open>Sort\<close> applies to
  a short slice, with the three methods as arguments, so that the order it leaves depends
  on what \<open>byLen\<close> makes of \<open>Less\<close> and \<open>Swap\<close>. The inner loop is
  \<open>for j := i; j > a && data.Less(j, j-1); j-- { data.Swap(j, j-1) }\<close>.
\<close>

fun insertionSort_inner ::
  "('s \<Rightarrow> nat \<Rightarrow> nat \<Rightarrow> bool) \<Rightarrow> ('s \<Rightarrow> nat \<Rightarrow> nat \<Rightarrow> 's) \<Rightarrow> nat \<Rightarrow> nat \<Rightarrow> 's \<Rightarrow> 's" where
  "insertionSort_inner Less Swap a 0 data = data"
| "insertionSort_inner Less Swap a (Suc j) data =
     (if Suc j > a \<and> Less data (Suc j) j
      then insertionSort_inner Less Swap a j (Swap data (Suc j) j)
      else data)"

text \<open>The outer loop: \<open>for i := a + 1; i < b; i++\<close>.\<close>

function insertionSort_outer ::
  "('s \<Rightarrow> nat \<Rightarrow> nat \<Rightarrow> bool) \<Rightarrow> ('s \<Rightarrow> nat \<Rightarrow> nat \<Rightarrow> 's) \<Rightarrow> nat \<Rightarrow> nat \<Rightarrow> nat \<Rightarrow> 's \<Rightarrow> 's" where
  "insertionSort_outer Less Swap a b i data =
     (if i < b then insertionSort_outer Less Swap a b (Suc i) (insertionSort_inner Less Swap a i data)
      else data)"
  by pat_completeness auto
termination
  by (relation "measure (\<lambda>(Less, Swap, a, b, i, data). b - i)") auto

declare insertionSort_outer.simps [simp del]

definition insertionSort ::
  "('s \<Rightarrow> nat \<Rightarrow> nat \<Rightarrow> bool) \<Rightarrow> ('s \<Rightarrow> nat \<Rightarrow> nat \<Rightarrow> 's) \<Rightarrow> nat \<Rightarrow> nat \<Rightarrow> 's \<Rightarrow> 's" where
  "insertionSort Less Swap a b data = insertionSort_outer Less Swap a b (Suc a) data"

text \<open>\<open>Sort\<close> takes the length once and sorts the whole slice.\<close>

definition Sort ::
  "('s \<Rightarrow> nat) \<Rightarrow> ('s \<Rightarrow> nat \<Rightarrow> nat \<Rightarrow> bool) \<Rightarrow> ('s \<Rightarrow> nat \<Rightarrow> nat \<Rightarrow> 's) \<Rightarrow> 's \<Rightarrow> 's" where
  "Sort Len Less Swap data = insertionSort Less Swap 0 (Len data) data"

text \<open>The groups are in descending order of size.\<close>

definition desc :: "'a list list \<Rightarrow> bool" where
  "desc b \<longleftrightarrow> sorted_wrt (\<lambda>x y. length x \<ge> length y) b"

section \<open>The three stages in a row\<close>

text \<open>The calls of \<open>main\<close> between parsing and printing.\<close>

definition grouped ::
  "(string \<Rightarrow> string) \<Rightarrow> (ptr list list \<Rightarrow> ptr list list) \<Rightarrow> 64 word list \<Rightarrow> 64 word list
     \<Rightarrow> string list \<Rightarrow> Event list \<Rightarrow> panic + ptr list list \<times> store" where
  "grouped md5hex sort_Sort ks ks' hs events =
     (case events2gs events of
        Inl e \<Rightarrow> Inl e
      | Inr (gs, h) \<Rightarrow>
          (case unfinishedGs ks gs h of
             Inl e \<Rightarrow> Inl e
           | Inr (unfinished, h') \<Rightarrow> uniq md5hex sort_Sort ks' hs unfinished h'))"

section \<open>Notions the properties are stated with\<close>

text \<open>The event creates goroutine \<open>k\<close>: a creation event whose first argument is \<open>k\<close>.\<close>

definition creates :: "Event \<Rightarrow> 64 word \<Rightarrow> bool" where
  "creates ev k \<longleftrightarrow> Type ev = EvGoCreate \<and> (case Args ev of [] \<Rightarrow> False | a # _ \<Rightarrow> a = k)"

text \<open>The event ends goroutine \<open>k\<close>: a termination event owned by \<open>k\<close>.\<close>

definition ends :: "Event \<Rightarrow> 64 word \<Rightarrow> bool" where
  "ends ev k \<longleftrightarrow> Type ev = EvGoEnd \<and> G ev = k"

text \<open>The creation event links to an event owned by \<open>k\<close>.\<close>

definition links_to :: "Event \<Rightarrow> 64 word \<Rightarrow> bool" where
  "links_to ev k \<longleftrightarrow>
     Type ev = EvGoCreate \<and> (case Link ev of None \<Rightarrow> False | Some l \<Rightarrow> G l = k)"

text \<open>The events owned by \<open>k\<close>, in their order.\<close>

definition owned :: "64 word \<Rightarrow> Event list \<Rightarrow> Event list" where
  "owned k events = filter (\<lambda>ev. G ev = k) events"

text \<open>
  All that one iteration of the first loop does to the record of the owner of the event,
  when the event does not allocate that record.
\<close>

definition owner_update :: "Event \<Rightarrow> Goroutine \<Rightarrow> Goroutine" where
  "owner_update ev r = observe ev (if Type ev = EvGoEnd then r\<lparr>destroy := Ts ev\<rparr> else r)"

text \<open>Every pointer of the map is allocated, and no two keys share a pointer.\<close>

definition well_formed :: "('k \<rightharpoonup> ptr) \<times> store \<Rightarrow> bool" where
  "well_formed s \<longleftrightarrow> (\<forall>k p. fst s k = Some p \<longrightarrow> p < length (snd s)) \<and> inj_on (fst s) (dom (fst s))"

text \<open>The record a result of \<open>events2gs\<close> holds for an identifier.\<close>

definition record_of :: "panic + gmap \<times> store \<Rightarrow> 64 word \<Rightarrow> Goroutine option" where
  "record_of res k =
     (case res of
        Inl e \<Rightarrow> None
      | Inr (gs, h) \<Rightarrow>
          (case gs k of None \<Rightarrow> None | Some p \<Rightarrow> if p < length h then Some (h ! p) else None))"

text \<open>
  The goroutine \<open>k\<close> has a creation event and never owns a subsequent event: some event
  creates it, and no event after the last event that creates it is owned by it.
\<close>

definition never_scheduled :: "64 word \<Rightarrow> Event list \<Rightarrow> bool" where
  "never_scheduled k events =
     (case dropWhile (\<lambda>ev. \<not> creates ev k) (rev events) of
        [] \<Rightarrow> False
      | c # before \<Rightarrow>
          list_all (\<lambda>ev. G ev \<noteq> k) (takeWhile (\<lambda>ev. \<not> creates ev k) (rev events)))"

text \<open>The last event that creates \<open>k\<close> is owned by another goroutine, its creator.\<close>

definition created_by_another :: "64 word \<Rightarrow> Event list \<Rightarrow> bool" where
  "created_by_another k events =
     (case dropWhile (\<lambda>ev. \<not> creates ev k) (rev events) of
        [] \<Rightarrow> False
      | c # before \<Rightarrow> G c \<noteq> k)"

text \<open>
  The name of a goroutine in the words of the specification: the function name of the
  innermost frame of the first stack, among the events the goroutine owns, that is not
  empty. It is compared with the name \<open>events2gs\<close> computes.
\<close>

definition first_stack_name :: "64 word \<Rightarrow> Event list \<Rightarrow> string" where
  "first_stack_name k events =
     (case find (\<lambda>ev. Stk ev \<noteq> []) (owned k events) of None \<Rightarrow> [] | Some ev \<Rightarrow> Fn (Stk ev ! 0))"

text \<open>
  The event can give a goroutine its name: its stack is not empty and the function name of
  the innermost frame is not the empty string.
\<close>

definition gives_name :: "Event \<Rightarrow> bool" where
  "gives_name e \<longleftrightarrow> Stk e \<noteq> [] \<and> Fn (Stk e ! 0) \<noteq> []"

text \<open>The fields of a record that the second loop does not write.\<close>

definition pass1_fields :: "Goroutine \<Rightarrow> 64 word \<times> string \<times> 64 word \<times> 64 word \<times> Stack \<times> string" where
  "pass1_fields r = (ID r, name r, create r, destroy r, lastStack r, lastState r)"

text \<open>The entries of a map whose record has no time of destruction.\<close>

definition alive :: "gmap \<Rightarrow> store \<Rightarrow> gmap" where
  "alive gs h k = (case gs k of None \<Rightarrow> None | Some p \<Rightarrow> if destroy (h ! p) = 0 then Some p else None)"

text \<open>The pointers of a list whose record has the digest \<open>d\<close>.\<close>

definition members :: "(string \<Rightarrow> string) \<Rightarrow> store \<Rightarrow> ptr list \<Rightarrow> string \<Rightarrow> ptr list" where
  "members md5hex h ps d = filter (\<lambda>p. hash md5hex (h ! p) = d) ps"

section \<open>A small trace and its goroutines\<close>

text \<open>
  Goroutine 1 runs \<open>main.main\<close> and starts the workers 2, 3 and 4. Workers 2 and 3 block
  on a channel and never end; worker 4 ends. The digest \<open>id_digest\<close> returns the bytes
  written to it, so it never maps two inputs to one digest.
\<close>

definition f_main :: Frame where
  "f_main = \<lparr>Fn = ''main.main'', File = ''main.go'', Line = 10\<rparr>"

definition f_worker :: Frame where
  "f_worker = \<lparr>Fn = ''main.worker'', File = ''main.go'', Line = 20\<rparr>"

definition blocked :: "64 word \<Rightarrow> 64 word \<Rightarrow> Goroutine" where
  "blocked gid ts =
     \<lparr>ID = gid, ParentID = 1, parentStack = [f_main], name = ''main.worker'', create = ts,
      destroy = 0, lastStack = [f_worker], lastState = ''EvGoBlockRecv''\<rparr>"

definition ended :: "64 word \<Rightarrow> Goroutine" where
  "ended gid =
     \<lparr>ID = gid, ParentID = 1, parentStack = [f_main], name = [], create = 30,
      destroy = 40, lastStack = [], lastState = ''EvGoEnd''\<rparr>"

definition id_digest :: "string \<Rightarrow> string" where
  "id_digest s = s"

text \<open>The first start of a goroutine, the event its creation links to.\<close>

definition start_of :: "64 word \<Rightarrow> 64 word \<Rightarrow> Event" where
  "start_of gid ts = Event 14 ts gid [] [gid, 0, 0] None"

definition trace0 :: "Event list" where
  "trace0 =
    [Event EvGoCreate 10 1 [f_main] [2, 0, 0] (Some (start_of 2 12)),
     start_of 2 12,
     Event 23 15 2 [f_worker] [0, 0, 0] None,
     Event EvGoCreate 20 1 [f_main] [3, 0, 0] (Some (start_of 3 22)),
     start_of 3 22,
     Event 23 25 3 [f_worker] [0, 0, 0] None,
     Event EvGoCreate 30 1 [f_main] [4, 0, 0] (Some (start_of 4 31)),
     start_of 4 31,
     Event EvGoEnd 40 4 [] [0, 0, 0] None]"

text \<open>A record as the first loop leaves it, before the second loop writes the parent.\<close>

definition unlinked :: "Goroutine \<Rightarrow> Goroutine" where
  "unlinked r = r\<lparr>ParentID := 0, parentStack := []\<rparr>"

text \<open>The bytes \<open>hash\<close> writes for a blocked worker.\<close>

definition worker_digest :: string where
  "worker_digest = ''main.workerEvGoBlockRecvmain.worker [main.go:20]''"

text \<open>Two goroutines that are created and never run.\<close>

definition trace_idle :: "Event list" where
  "trace_idle =
    [Event EvGoCreate 10 1 [f_main] [2, 0, 0] None,
     Event EvGoCreate 20 1 [f_main] [3, 0, 0] None]"

text \<open>
  Two goroutines with different names and different last states for which \<open>hash\<close> writes
  the same bytes: the last event of the second has a kind that \<open>states\<close> does not list.
\<close>

definition f_blocked :: "Goroutine" where
  "f_blocked =
     \<lparr>ID = 2, ParentID = 1, parentStack = [f_main], name = ''main.x'', create = 10,
      destroy = 0, lastStack = [f_worker], lastState = ''EvGoBlock''\<rparr>"

definition f_unknown :: "Goroutine" where
  "f_unknown =
     \<lparr>ID = 3, ParentID = 1, parentStack = [f_main], name = ''main.xEvGoBlock'', create = 20,
      destroy = 0, lastStack = [f_worker], lastState = []\<rparr>"

section \<open>Invariants of the two loops\<close>

subsection \<open>The first loop\<close>


lemma wf_empty: "well_formed (Map.empty, [])"
  by (simp add: well_formed_def)

lemma wfI: "(\<And>k p. m k = Some p \<Longrightarrow> p < length h) \<Longrightarrow> (\<And>k k' p. m k = Some p \<Longrightarrow> m k' = Some p \<Longrightarrow> k = k') \<Longrightarrow> well_formed (m, h)"
  by (auto simp: well_formed_def inj_on_def dom_def)

lemma wf_bound: "well_formed (m, h) \<Longrightarrow> m k = Some p \<Longrightarrow> p < length h"
  by (auto simp: well_formed_def)

lemma wf_inj: "well_formed (m, h) \<Longrightarrow> m k = Some p \<Longrightarrow> m k' = Some p \<Longrightarrow> k = k'"
  by (auto simp: well_formed_def inj_on_def dom_def)

lemma wf_update_store: "well_formed (m, h) \<Longrightarrow> length h' = length h \<Longrightarrow> well_formed (m, h')"
  by (auto simp: well_formed_def)

lemma wf_alloc: "well_formed (m, h) \<Longrightarrow> well_formed (m(a \<mapsto> length h), h @ [r])"
  apply (rule wfI)
   apply (auto simp: less_Suc_eq dest: wf_bound split: if_splits)
  apply (auto dest: wf_bound wf_inj)
  done

lemma modify_Inr: "modify h p f = Inr h' \<longleftrightarrow> p < length h \<and> h' = h[p := f (h ! p)]"
  by (auto simp: modify_def)

lemma modify_Inl: "modify h p f = Inl e \<longleftrightarrow> \<not> p < length h \<and> e = NilDereference"
  by (auto simp: modify_def)

lemma kind_specific_cases:
  assumes "kind_specific ev (m, h) = Inr (m', h')"
  obtains (create) a as where "Type ev = EvGoCreate" "Args ev = a # as" "m' = m(a \<mapsto> length h)" "h' = h @ [newGoroutine a (Ts ev)]"
  | (finish) p where "Type ev = EvGoEnd" "Type ev \<noteq> EvGoCreate" "m (G ev) = Some p" "p < length h" "m' = m" "h' = h[p := (h ! p)\<lparr>destroy := Ts ev\<rparr>]"
  | (other) "Type ev \<noteq> EvGoCreate" "Type ev \<noteq> EvGoEnd" "m' = m" "h' = h"
  using assms
  by (auto simp: kind_specific_def modify_Inr split: if_splits list.splits option.splits sum.splits)

lemma pass1_step_cases:
  assumes "pass1_step ev (m, h) = Inr (m', h')"
  obtains (skip) "kind_specific ev (m, h) = Inr (m', h')" "m' (G ev) = None"
  | (seen) h1 p where "kind_specific ev (m, h) = Inr (m', h1)" "m' (G ev) = Some p" "p < length h1" "h' = h1[p := observe ev (h1 ! p)]"
proof (cases "kind_specific ev (m, h)")
  case (Inl e)
  with assms show ?thesis by (simp add: pass1_step_def)
next
  case (Inr s1)
  obtain m1 h1 where s1: "s1 = (m1, h1)" by (cases s1)
  show ?thesis
  proof (cases "m1 (G ev)")
    case None
    with assms Inr s1 skip show ?thesis by (simp add: pass1_step_def)
  next
    case (Some p)
    with assms Inr s1 have "p < length h1 \<and> h' = h1[p := observe ev (h1 ! p)] \<and> m' = m1"
      by (auto simp: pass1_step_def modify_def split: if_splits)
    with Inr s1 Some seen show ?thesis by blast
  qed
qed

lemma kind_specific_wf: "kind_specific ev (m, h) = Inr (m', h') \<Longrightarrow> well_formed (m, h) \<Longrightarrow> well_formed (m', h')"
  by (erule kind_specific_cases) (auto intro: wf_alloc wf_update_store)

lemma pass1_step_wf: "pass1_step ev (m, h) = Inr (m', h') \<Longrightarrow> well_formed (m, h) \<Longrightarrow> well_formed (m', h')"
  by (erule pass1_step_cases) (auto dest: kind_specific_wf intro: wf_update_store)

lemma pass1_wf: "pass1 evs s = Inr s' \<Longrightarrow> well_formed s \<Longrightarrow> well_formed s'"
proof (induction evs arbitrary: s)
  case Nil then show ?case by simp
next
  case (Cons ev evs)
  then obtain s1 where s1: "pass1_step ev s = Inr s1" "pass1 evs s1 = Inr s'"
    by (auto split: sum.splits)
  with Cons show ?case by (cases s; cases s1) (auto dest: pass1_step_wf)
qed

lemma pass1_append:
  "pass1 (xs @ ys) s = (case pass1 xs s of Inl e \<Rightarrow> Inl e | Inr s' \<Rightarrow> pass1 ys s')"
  by (induction xs arbitrary: s) (auto split: sum.splits)


lemma Ev_distinct [simp]: "EvGoCreate \<noteq> EvGoEnd" "EvGoEnd \<noteq> EvGoCreate"
  by (simp_all add: EvGoCreate_def EvGoEnd_def)

lemma pass1_step_track:
  assumes wf: "well_formed (m, h)" and k: "m k = Some p" and nc: "\<not> creates ev k"
    and step: "pass1_step ev (m, h) = Inr (m', h')"
  shows "m' k = Some p \<and> h' ! p = (if G ev = k then owner_update ev (h ! p) else h ! p)"
proof -
  have p: "p < length h" using wf k by (rule wf_bound)
  from step show ?thesis
  proof (cases rule: pass1_step_cases)
    case skip
    from skip(1) show ?thesis
    proof (cases rule: kind_specific_cases)
      case (create a as)
      with nc have "a \<noteq> k" by (simp add: creates_def)
      with create skip k p show ?thesis by (auto simp: nth_append)
    next
      case (finish q)
      with skip k show ?thesis by auto
    next
      case other
      with skip k show ?thesis by auto
    qed
  next
    case (seen h1 q)
    from seen(1) show ?thesis
    proof (cases rule: kind_specific_cases)
      case (create a as)
      with nc have ak: "a \<noteq> k" by (simp add: creates_def)
      with create k have mk: "m' k = Some p" by simp
      have h1p: "h1 ! p = h ! p" using create p by (simp add: nth_append)
      show ?thesis
      proof (cases "G ev = k")
        case True
        with seen mk have "q = p" by simp
        with seen h1p create True mk p show ?thesis
          by (simp add: owner_update_def)
      next
        case False
        have "q \<noteq> p"
        proof
          assume "q = p"
          with seen(2) create ak p have "m (G ev) = Some p" by (auto split: if_splits)
          with wf k have "G ev = k" by (blast dest: wf_inj)
          with False show False by simp
        qed
        with seen h1p mk False show ?thesis by simp
      qed
    next
      case (finish q')
      with seen have qq: "q' = q" by simp
      show ?thesis
      proof (cases "G ev = k")
        case True
        with finish k qq have "q = p" by simp
        with seen finish True k p qq show ?thesis by (simp add: owner_update_def)
      next
        case False
        have "q \<noteq> p" using wf k finish qq False by (auto dest: wf_inj)
        with seen finish False k qq show ?thesis by simp
      qed
    next
      case other
      show ?thesis
      proof (cases "G ev = k")
        case True
        with seen other k have "q = p" by simp
        with seen other True k p show ?thesis by (simp add: owner_update_def)
      next
        case False
        have "q \<noteq> p" using wf k other seen False by (auto dest: wf_inj)
        with seen other False k show ?thesis by simp
      qed
    qed
  qed
qed

lemma pass1_step_absent:
  assumes k: "m k = None" and nc: "\<not> creates ev k"
    and step: "pass1_step ev (m, h) = Inr (m', h')"
  shows "m' k = None \<and> \<not> ends ev k"
proof -
  from step obtain h1 where ks: "kind_specific ev (m, h) = Inr (m', h1)"
    by (cases rule: pass1_step_cases) auto
  from ks show ?thesis
  proof (cases rule: kind_specific_cases)
    case (create a as)
    with nc have "a \<noteq> k" by (simp add: creates_def)
    with create k show ?thesis by (simp add: ends_def)
  next
    case (finish q)
    with k show ?thesis by (auto simp: ends_def)
  next
    case other
    with k show ?thesis by (simp add: ends_def)
  qed
qed

lemma pass1_step_create:
  assumes wf: "well_formed (m, h)" and c: "creates ev k" and step: "pass1_step ev (m, h) = Inr (m', h')"
  shows "m' k = Some (length h) \<and> length h' = Suc (length h) \<and>
         h' ! length h = (if G ev = k then observe ev (newGoroutine k (Ts ev)) else newGoroutine k (Ts ev))"
proof -
  from c obtain as where a: "Type ev = EvGoCreate" "Args ev = k # as"
    by (auto simp: creates_def split: list.splits)
  from step show ?thesis
  proof (cases rule: pass1_step_cases)
    case skip
    from skip(1) a have "m' = m(k \<mapsto> length h)" "h' = h @ [newGoroutine k (Ts ev)]"
      by (auto elim!: kind_specific_cases)
    with skip show ?thesis by auto
  next
    case (seen h1 q)
    from seen(1) a have *: "m' = m(k \<mapsto> length h)" "h1 = h @ [newGoroutine k (Ts ev)]"
      by (auto elim!: kind_specific_cases)
    show ?thesis
    proof (cases "G ev = k")
      case True
      with * seen show ?thesis by auto
    next
      case False
      with * seen have "m (G ev) = Some q" by auto
      with wf have "q < length h" by (rule wf_bound)
      with * seen False show ?thesis by auto
    qed
  qed
qed


lemma pass1_step_dom:
  assumes step: "pass1_step ev (m, h) = Inr (m', h')"
  shows "dom m' = dom m \<union> {k. creates ev k}"
proof -
  from step obtain h1 where ks: "kind_specific ev (m, h) = Inr (m', h1)"
    by (cases rule: pass1_step_cases) auto
  from ks show ?thesis
    by (cases rule: kind_specific_cases) (auto simp: creates_def split: list.splits)
qed

lemma observe_name_kept: "name r \<noteq> [] \<Longrightarrow> name (observe ev r) = name r"
  by (simp add: observe_def Let_def)

lemma pass1_step_name_kept:
  assumes step: "pass1_step ev (m, h) = Inr (m', h')" and q: "q < length h"
    and n: "name (h ! q) \<noteq> []"
  shows "length h \<le> length h' \<and> name (h' ! q) = name (h ! q)"
proof -
  have ks: "kind_specific ev (m, h) = Inr (m', h1) \<Longrightarrow>
      length h \<le> length h1 \<and> name (h1 ! q) = name (h ! q)" for h1
    using q by (erule_tac kind_specific_cases) (auto simp: nth_append nth_list_update)
  from step show ?thesis
  proof (cases rule: pass1_step_cases)
    case skip
    then show ?thesis using ks by blast
  next
    case (seen h1 p)
    from ks [OF seen(1)] have *: "length h \<le> length h1" "name (h1 ! q) = name (h ! q)" by auto
    with seen n show ?thesis
      by (cases "p = q") (auto simp: observe_name_kept)
  qed
qed

lemma pass1_track:
  assumes "well_formed (m, h)" "m k = Some p" "\<forall>e\<in>set evs. \<not> creates e k"
    "pass1 evs (m, h) = Inr (m', h')"
  shows "m' k = Some p \<and> h' ! p = fold owner_update (owned k evs) (h ! p)"
  using assms
proof (induction evs arbitrary: m h)
  case Nil
  then show ?case by (simp add: owned_def)
next
  case (Cons ev evs)
  from Cons.prems(4) obtain m1 h1 where s1: "pass1_step ev (m, h) = Inr (m1, h1)"
    "pass1 evs (m1, h1) = Inr (m', h')"
    by (auto split: sum.splits)
  from Cons.prems(3) have nc: "\<not> creates ev k" "\<forall>e\<in>set evs. \<not> creates e k" by auto
  from pass1_step_track [OF Cons.prems(1,2) nc(1) s1(1)]
  have t: "m1 k = Some p" "h1 ! p = (if G ev = k then owner_update ev (h ! p) else h ! p)" by auto
  have wf1: "well_formed (m1, h1)" using s1(1) Cons.prems(1) by (rule pass1_step_wf)
  from Cons.IH [OF wf1 t(1) nc(2) s1(2)] t(2) show ?case
    by (simp add: owned_def)
qed

lemma pass1_absent:
  assumes "m k = None" "\<forall>e\<in>set evs. \<not> creates e k" "pass1 evs (m, h) = Inr (m', h')"
  shows "m' k = None \<and> (\<forall>e\<in>set evs. \<not> ends e k)"
  using assms
proof (induction evs arbitrary: m h)
  case Nil
  then show ?case by simp
next
  case (Cons ev evs)
  from Cons.prems(3) obtain m1 h1 where s1: "pass1_step ev (m, h) = Inr (m1, h1)"
    "pass1 evs (m1, h1) = Inr (m', h')"
    by (auto split: sum.splits)
  from Cons.prems(2) have nc: "\<not> creates ev k" "\<forall>e\<in>set evs. \<not> creates e k" by auto
  from pass1_step_absent [OF Cons.prems(1) nc(1) s1(1)] have a: "m1 k = None" "\<not> ends ev k" by auto
  from Cons.IH [OF a(1) nc(2) s1(2)] a(2) show ?case by simp
qed

lemma pass1_dom:
  assumes "pass1 evs (m, h) = Inr (m', h')"
  shows "dom m' = dom m \<union> {k. \<exists>e\<in>set evs. creates e k}"
  using assms
proof (induction evs arbitrary: m h)
  case Nil
  then show ?case by simp
next
  case (Cons ev evs)
  from Cons.prems obtain m1 h1 where s1: "pass1_step ev (m, h) = Inr (m1, h1)"
    "pass1 evs (m1, h1) = Inr (m', h')"
    by (auto split: sum.splits)
  from Cons.IH [OF s1(2)] pass1_step_dom [OF s1(1)] show ?case by auto
qed

lemma pass1_name_kept:
  assumes "pass1 evs (m, h) = Inr (m', h')" "q < length h" "name (h ! q) \<noteq> []"
  shows "length h \<le> length h' \<and> name (h' ! q) = name (h ! q)"
  using assms
proof (induction evs arbitrary: m h)
  case Nil
  then show ?case by simp
next
  case (Cons ev evs)
  from Cons.prems obtain m1 h1 where s1: "pass1_step ev (m, h) = Inr (m1, h1)"
    "pass1 evs (m1, h1) = Inr (m', h')"
    by (auto split: sum.splits)
  from pass1_step_name_kept [OF s1(1) Cons.prems(2,3)]
  have *: "length h \<le> length h1" "name (h1 ! q) = name (h ! q)" by auto
  with Cons.prems have "q < length h1" "name (h1 ! q) \<noteq> []" by auto
  from Cons.IH [OF s1(2) this] * show ?case by simp
qed

subsection \<open>The record of a goroutine after its own events\<close>

lemma owner_update_last: "lastState (owner_update e r) = states (Type e) \<and> lastStack (owner_update e r) = Stk e"
  by (simp add: owner_update_def observe_def Let_def)

lemma fold_owner_update_last:
  "es \<noteq> [] \<Longrightarrow> lastState (fold owner_update es r) = states (Type (last es)) \<and>
     lastStack (fold owner_update es r) = Stk (last es)"
  by (induction es arbitrary: r) (auto simp: owner_update_last)

lemma owner_update_name:
  "name (owner_update e r) = (if name r \<noteq> [] then name r else if gives_name e then Fn (Stk e ! 0) else [])"
  by (auto simp: owner_update_def observe_def Let_def gives_name_def)

lemma fold_owner_update_name:
  "name (fold owner_update es r) =
     (if name r \<noteq> [] then name r
      else (case find gives_name es of None \<Rightarrow> [] | Some e \<Rightarrow> Fn (Stk e ! 0)))"
proof (induction es arbitrary: r)
  case Nil
  then show ?case by simp
next
  case (Cons e es)
  show ?case
    by (simp add: Cons.IH owner_update_name) (auto simp: gives_name_def)
qed

lemma owner_update_destroy:
  "destroy (owner_update e r) = (if Type e = EvGoEnd then Ts e else destroy r)"
  by (simp add: owner_update_def observe_def Let_def)

lemma fold_owner_update_destroy:
  "\<forall>e\<in>set es. Type e = EvGoEnd \<longrightarrow> Ts e \<noteq> 0 \<Longrightarrow>
   destroy (fold owner_update es r) = 0 \<longleftrightarrow> destroy r = 0 \<and> (\<forall>e\<in>set es. Type e \<noteq> EvGoEnd)"
  by (induction es arbitrary: r) (auto simp: owner_update_destroy)


subsection \<open>The second loop\<close>

lemma pass2_step_cases:
  assumes "pass2_step ev (m, h) = Inr (m', h')"
  obtains (skip) "m' = m" "h' = h" "\<forall>k. links_to ev k \<longrightarrow> m k = None"
  | (link) l p where "Type ev = EvGoCreate" "Link ev = Some l" "m (G l) = Some p"
      "p < length h" "m' = m" "h' = h[p := (h ! p)\<lparr>ParentID := G ev, parentStack := Stk ev\<rparr>]"
proof (cases "Type ev = EvGoCreate")
  case False
  with assms skip show ?thesis by (simp add: pass2_step_def links_to_def)
next
  case True
  show ?thesis
  proof (cases "Link ev")
    case None
    with assms True skip show ?thesis by (simp add: pass2_step_def links_to_def)
  next
    case (Some l)
    show ?thesis
    proof (cases "m (G l)")
      case None
      with assms True Some skip show ?thesis by (simp add: pass2_step_def links_to_def)
    next
      case (Some p) note mp = this
      with assms True \<open>Link ev = Some l\<close>
      have "p < length h \<and> m' = m \<and> h' = h[p := (h ! p)\<lparr>ParentID := G ev, parentStack := Stk ev\<rparr>]"
        by (auto simp: pass2_step_def modify_def split: if_splits)
      with True \<open>Link ev = Some l\<close> mp link show ?thesis by blast
    qed
  qed
qed

lemma pass2_step_total:
  assumes "well_formed (m, h)"
  shows "\<exists>h'. pass2_step ev (m, h) = Inr (m, h')"
  using assms
  by (auto simp: pass2_step_def modify_def split: option.splits dest: wf_bound)

lemma pass2_step_wf:
  "pass2_step ev (m, h) = Inr (m', h') \<Longrightarrow> well_formed (m, h) \<Longrightarrow> well_formed (m', h')"
  by (erule pass2_step_cases) (auto intro: wf_update_store)

lemma pass2_step_fields:
  "pass2_step ev (m, h) = Inr (m', h') \<Longrightarrow> m' = m \<and> map pass1_fields h' = map pass1_fields h"
  by (erule pass2_step_cases) (auto simp: map_update pass1_fields_def list_update_same_conv)

lemma pass2_step_track:
  assumes wf: "well_formed (m, h)" and k: "m k = Some p"
    and step: "pass2_step ev (m, h) = Inr (m', h')"
  shows "h' ! p = (if links_to ev k then (h ! p)\<lparr>ParentID := G ev, parentStack := Stk ev\<rparr> else h ! p)"
  using step
proof (cases rule: pass2_step_cases)
  case skip
  with k show ?thesis by auto
next
  case (link l q)
  show ?thesis
  proof (cases "G l = k")
    case True
    with link k show ?thesis by (auto simp: links_to_def)
  next
    case False
    with wf k link have "q \<noteq> p" by (auto dest: wf_inj)
    with link False show ?thesis by (auto simp: links_to_def)
  qed
qed

lemma pass2_append:
  "pass2 (xs @ ys) s = (case pass2 xs s of Inl e \<Rightarrow> Inl e | Inr s' \<Rightarrow> pass2 ys s')"
  by (induction xs arbitrary: s) (auto split: sum.splits)

lemma pass2_total:
  assumes "well_formed (m, h)"
  shows "\<exists>h'. pass2 evs (m, h) = Inr (m, h')"
  using assms
proof (induction evs arbitrary: h)
  case Nil
  then show ?case by simp
next
  case (Cons ev evs)
  from pass2_step_total [OF Cons.prems] obtain h1 where s1: "pass2_step ev (m, h) = Inr (m, h1)"
    by blast
  with Cons.prems have "well_formed (m, h1)" by (blast dest: pass2_step_wf)
  from Cons.IH [OF this] s1 show ?case by simp
qed

lemma pass2_fields:
  assumes "pass2 evs (m, h) = Inr (m', h')"
  shows "m' = m \<and> map pass1_fields h' = map pass1_fields h"
  using assms
proof (induction evs arbitrary: m h)
  case Nil
  then show ?case by simp
next
  case (Cons ev evs)
  from Cons.prems obtain m1 h1 where s1: "pass2_step ev (m, h) = Inr (m1, h1)"
    "pass2 evs (m1, h1) = Inr (m', h')"
    by (auto split: sum.splits)
  from Cons.IH [OF s1(2)] pass2_step_fields [OF s1(1)] show ?case by simp
qed

lemma pass2_wf:
  assumes "pass2 evs (m, h) = Inr (m', h')" "well_formed (m, h)"
  shows "well_formed (m', h')"
proof -
  from pass2_fields [OF assms(1)] have "m' = m" "map pass1_fields h' = map pass1_fields h" by auto
  then have "length h' = length h" using map_eq_imp_length_eq by blast
  with assms(2) \<open>m' = m\<close> show ?thesis by (auto intro: wf_update_store)
qed

lemma pass2_untouched:
  assumes "well_formed (m, h)" "m k = Some p" "\<forall>e\<in>set evs. \<not> links_to e k"
    "pass2 evs (m, h) = Inr (m', h')"
  shows "h' ! p = h ! p"
  using assms
proof (induction evs arbitrary: m h)
  case Nil
  then show ?case by simp
next
  case (Cons ev evs)
  from Cons.prems(4) obtain m1 h1 where s1: "pass2_step ev (m, h) = Inr (m1, h1)"
    "pass2 evs (m1, h1) = Inr (m', h')"
    by (auto split: sum.splits)
  have m1: "m1 = m" using pass2_step_fields [OF s1(1)] by simp
  have wf1: "well_formed (m1, h1)" using s1(1) Cons.prems(1) by (rule pass2_step_wf)
  from pass2_step_track [OF Cons.prems(1,2) s1(1)] Cons.prems(3) have "h1 ! p = h ! p" by simp
  moreover from Cons.IH [OF wf1 _ _ s1(2)] Cons.prems(2,3) m1 have "h' ! p = h1 ! p" by simp
  ultimately show ?case by simp
qed

lemma pass2_linked:
  assumes wf: "well_formed (m, h)" and k: "m k = Some p" and l: "links_to e k"
    and post: "\<forall>x\<in>set post. \<not> links_to x k"
    and run: "pass2 (pre @ e # post) (m, h) = Inr (m', h')"
  shows "ParentID (h' ! p) = G e \<and> parentStack (h' ! p) = Stk e"
proof -
  from run obtain s1 where s1: "pass2 pre (m, h) = Inr s1" "pass2 (e # post) s1 = Inr (m', h')"
    by (auto simp: pass2_append split: sum.splits)
  obtain m1 h1 where [simp]: "s1 = (m1, h1)" by (cases s1)
  have m1: "m1 = m" using pass2_fields s1(1) by simp
  have wf1: "well_formed (m, h1)" using pass2_wf s1(1) wf m1 by auto
  from s1(2) obtain s2 where s2: "pass2_step e (m, h1) = Inr s2" "pass2 post s2 = Inr (m', h')"
    by (auto simp: m1 split: sum.splits)
  obtain m2 h2 where [simp]: "s2 = (m2, h2)" by (cases s2)
  have m2: "m2 = m" using pass2_step_fields s2(1) by simp
  have wf2: "well_formed (m, h2)" using pass2_step_wf s2(1) wf1 m2 by auto
  from pass2_step_track [OF wf1 k] s2(1) l
  have "h2 ! p = (h1 ! p)\<lparr>ParentID := G e, parentStack := Stk e\<rparr>" by (simp add: m2)
  moreover from pass2_untouched [OF wf2 k post] s2(2) have "h' ! p = h2 ! p" by (simp add: m2)
  ultimately show ?thesis by simp
qed


subsection \<open>Ranging over a map\<close>

lemma set_range_map: "set (range_map m ks) = {(k, v). k \<in> set ks \<and> m k = Some v}"
  by (induction ks) (auto split: option.splits)

lemma range_map_empty [simp]: "range_map Map.empty ks = []"
  by (induction ks) auto

subsection \<open>The filter\<close>

lemma unfinishedGs_loop_frame:
  "unfinishedGs_loop es (u, h) = Inr (u', h') \<Longrightarrow> h' = h"
  by (induction es "(u, h)" arbitrary: u rule: unfinishedGs_loop.induct)
     (auto simp: load_def split: if_splits)

lemma unfinishedGs_loop_char:
  assumes "\<forall>(k, p)\<in>set es. gs k = Some p \<and> p < length h"
  shows "unfinishedGs_loop es (u, h) =
     Inr (\<lambda>k. if k \<in> fst ` set es \<and> alive gs h k \<noteq> None then alive gs h k else u k, h)"
  using assms
proof (induction es arbitrary: u)
  case Nil
  then show ?case by simp
next
  case (Cons e es)
  obtain k p where e: "e = (k, p)" by (cases e)
  from Cons.prems e have kp: "gs k = Some p" "p < length h"
    and rest: "\<forall>(k, p)\<in>set es. gs k = Some p \<and> p < length h" by auto
  show ?case
  proof (cases "destroy (h ! p) = 0")
    case True
    with kp have a: "alive gs h k = Some p" by (simp add: alive_def)
    from True kp e have "unfinishedGs_loop (e # es) (u, h) = unfinishedGs_loop es (u(k \<mapsto> p), h)"
      by (simp add: load_def)
    also note Cons.IH [OF rest]
    finally show ?thesis using a e by (auto intro!: ext)
  next
    case False
    with kp have a: "alive gs h k = None" by (simp add: alive_def)
    from False kp e have "unfinishedGs_loop (e # es) (u, h) = unfinishedGs_loop es (u, h)"
      by (simp add: load_def)
    also note Cons.IH [OF rest]
    finally show ?thesis using a e by (auto intro!: ext)
  qed
qed

lemma unfinishedGs_char:
  assumes wf: "well_formed (gs, h)" and ks: "dom gs \<subseteq> set ks"
  shows "unfinishedGs ks gs h = Inr (alive gs h, h)"
proof -
  have "\<forall>(k, p)\<in>set (range_map gs ks). gs k = Some p \<and> p < length h"
    using wf by (auto simp: set_range_map dest: wf_bound)
  from unfinishedGs_loop_char [OF this]
  have "unfinishedGs ks gs h =
     Inr (\<lambda>k. if k \<in> fst ` set (range_map gs ks) \<and> alive gs h k \<noteq> None then alive gs h k else None, h)"
    by (simp add: unfinishedGs_def)
  moreover have "(\<lambda>k. if k \<in> fst ` set (range_map gs ks) \<and> alive gs h k \<noteq> None then alive gs h k else None)
       = alive gs h"
  proof (rule ext)
    fix k
    show "(if k \<in> fst ` set (range_map gs ks) \<and> alive gs h k \<noteq> None then alive gs h k else None)
       = alive gs h k"
    proof (cases "alive gs h k")
      case None
      then show ?thesis by simp
    next
      case (Some p)
      then have "gs k = Some p" by (auto simp: alive_def split: option.splits if_splits)
      with ks have "(k, p) \<in> set (range_map gs ks)" by (auto simp: set_range_map)
      then have "k \<in> fst ` set (range_map gs ks)" by force
      with Some show ?thesis by simp
    qed
  qed
  ultimately show ?thesis by simp
qed

lemma alive_wf: "well_formed (gs, h) \<Longrightarrow> well_formed (alive gs h, h)"
  by (rule wfI) (auto simp: alive_def split: option.splits if_splits dest: wf_bound wf_inj)

subsection \<open>The grouper\<close>

lemma uniq_group_frame:
  "uniq_group md5hex es (gm, h) = Inr (gm', h') \<Longrightarrow> h' = h"
  by (induction md5hex es "(gm, h)" arbitrary: gm rule: uniq_group.induct)
     (auto simp: load_def Let_def split: if_splits)

lemma uniq_group_char:
  assumes "\<forall>(k, p)\<in>set es. p < length h"
  shows "uniq_group md5hex es (gm, h) =
     Inr (\<lambda>d. case gm d of
                 None \<Rightarrow> if members md5hex h (map snd es) d = [] then None
                         else Some (members md5hex h (map snd es) d)
               | Some grp \<Rightarrow> Some (grp @ members md5hex h (map snd es) d), h)"
  using assms
proof (induction es arbitrary: gm)
  case Nil
  then show ?case by (auto simp: members_def intro!: ext split: option.splits)
next
  case (Cons e es)
  obtain k p where e: "e = (k, p)" by (cases e)
  from Cons.prems e have p: "p < length h" and rest: "\<forall>(k, p)\<in>set es. p < length h" by auto
  define d0 where "d0 = hash md5hex (h ! p)"
  define gm2 where "gm2 = gm(d0 \<mapsto> (case gm d0 of None \<Rightarrow> [] | Some grp \<Rightarrow> grp) @ [p])"
  have "uniq_group md5hex (e # es) (gm, h) = uniq_group md5hex es (gm2, h)"
    using p e by (auto simp: load_def Let_def d0_def gm2_def split: option.splits)
  also note Cons.IH [OF rest]
  finally show ?case
    by (auto simp: e gm2_def d0_def members_def intro!: ext split: option.splits)
qed

subsection \<open>The reference sort\<close>

lemma mset_insert_byLen: "mset (insert_byLen x ys) = add_mset x (mset ys)"
  by (induction ys) auto

lemma set_insert_byLen: "set (insert_byLen x ys) = insert x (set ys)"
  by (induction ys) auto

lemma sorted_insert_byLen:
  "sorted_wrt (\<lambda>a b. length a \<ge> length b) ys \<Longrightarrow>
   sorted_wrt (\<lambda>a b. length a \<ge> length b) (insert_byLen x ys)"
  by (induction ys) (auto simp: set_insert_byLen)

lemma mset_insertion_sort: "mset (insertion_sort b) = mset b"
  unfolding insertion_sort_def by (induction b) (auto simp: mset_insert_byLen)

lemma sorted_insertion_sort: "sorted_wrt (\<lambda>a b. length a \<ge> length b) (insertion_sort b)"
  unfolding insertion_sort_def by (induction b) (auto simp: sorted_insert_byLen)

lemma sorts_byLen_insertion_sort: "sorts_byLen insertion_sort"
  unfolding sorts_byLen_def byLen_Len_def byLen_Less_def
  using sorted_insertion_sort [unfolded sorted_wrt_iff_nth_less]
  by (auto simp: mset_insertion_sort not_less)

lemma sorts_byLen_set: "sorts_byLen srt \<Longrightarrow> set (srt b) = set b"
  unfolding sorts_byLen_def by (blast dest: mset_eq_setD)

lemma sorts_byLen_Nil: "sorts_byLen srt \<Longrightarrow> srt [] = []"
  unfolding sorts_byLen_def by (metis mset_zero_iff)

lemma sorts_byLen_adjacent:
  assumes "sorts_byLen srt" "Suc i < length (srt b)"
  shows "length (srt b ! i) \<ge> length (srt b ! Suc i)"
proof -
  from assms(1) have "\<forall>i j. i < j \<and> j < byLen_Len (srt b) \<longrightarrow> \<not> byLen_Less (srt b) j i"
    unfolding sorts_byLen_def by blast
  with assms(2) have "\<not> byLen_Less (srt b) (Suc i) i"
    by (simp add: byLen_Len_def)
  then show ?thesis by (simp add: byLen_Less_def)
qed

subsection \<open>The insertion sort with the methods of byLen\<close>

lemma swap_adjacent:
  "byLen_Swap (xs @ y # x # ys) (Suc (length xs)) (length xs) = xs @ x # y # ys"
  by (simp add: byLen_Swap_def list_update_append nth_append)

lemma less_adjacent:
  "byLen_Less (xs @ y # x # ys) (Suc (length xs)) (length xs) \<longleftrightarrow> length x > length y"
  by (simp add: byLen_Less_def nth_append)

lemma inner_props:
  "\<exists>zs. insertionSort_inner byLen_Less byLen_Swap 0 (length xs) (xs @ x # ys) = zs @ ys \<and>
        mset zs = mset (xs @ [x]) \<and> (desc xs \<longrightarrow> desc zs)"
proof (induction xs arbitrary: ys rule: rev_induct)
  case Nil
  show ?case by (simp add: desc_def)
next
  case (snoc y xs)
  show ?case
  proof (cases "length x > length y")
    case True
    from snoc [of "y # ys"] obtain zs where
      zs: "insertionSort_inner byLen_Less byLen_Swap 0 (length xs) (xs @ x # y # ys) = zs @ y # ys"
        "mset zs = mset (xs @ [x])" "desc xs \<longrightarrow> desc zs"
      by blast
    have "insertionSort_inner byLen_Less byLen_Swap 0 (length (xs @ [y])) ((xs @ [y]) @ x # ys)
        = (zs @ [y]) @ ys"
      using True zs(1) by (simp add: less_adjacent swap_adjacent)
    moreover have "mset (zs @ [y]) = mset ((xs @ [y]) @ [x])" using zs(2) by simp
    moreover have "desc (xs @ [y]) \<longrightarrow> desc (zs @ [y])"
    proof
      assume d: "desc (xs @ [y])"
      then have "desc xs" and le: "\<forall>z\<in>set xs. length z \<ge> length y"
        by (auto simp: desc_def sorted_wrt_append)
      with zs(3) have "desc zs" by simp
      moreover have "set zs = set xs \<union> {x}" using zs(2) by (metis mset_eq_setD set_append list.set(1,2) Un_insert_right sup_bot.right_neutral)
      ultimately show "desc (zs @ [y])" using le True by (auto simp: desc_def sorted_wrt_append)
    qed
    ultimately show ?thesis by blast
  next
    case False
    have "insertionSort_inner byLen_Less byLen_Swap 0 (length (xs @ [y])) ((xs @ [y]) @ x # ys)
        = (xs @ [y, x]) @ ys"
      using False by (simp add: less_adjacent)
    moreover have "mset (xs @ [y, x]) = mset ((xs @ [y]) @ [x])" by simp
    moreover have "desc (xs @ [y]) \<longrightarrow> desc (xs @ [y, x])"
      using False by (auto simp: desc_def sorted_wrt_append)
    ultimately show ?thesis by blast
  qed
qed

lemma inner_step:
  assumes i: "i < length b" and d: "desc (take i b)"
  shows "mset (insertionSort_inner byLen_Less byLen_Swap 0 i b) = mset b \<and>
         desc (take (Suc i) (insertionSort_inner byLen_Less byLen_Swap 0 i b))"
proof -
  have b: "b = take i b @ b ! i # drop (Suc i) b" using i by (rule id_take_nth_drop)
  have len: "length (take i b) = i" using i by simp
  from inner_props [of "take i b" "b ! i" "drop (Suc i) b"] obtain zs where
    zs: "insertionSort_inner byLen_Less byLen_Swap 0 i b = zs @ drop (Suc i) b"
      "mset zs = mset (take i b @ [b ! i])" "desc (take i b) \<longrightarrow> desc zs"
    unfolding len using b by auto
  from zs(2) have "size (mset zs) = size (mset (take i b @ [b ! i]))" by simp
  then have lz: "length zs = Suc i" using len by simp
  have "mset (zs @ drop (Suc i) b) = mset (take i b @ b ! i # drop (Suc i) b)"
    using zs(2) by simp
  with b zs(1) have "mset (insertionSort_inner byLen_Less byLen_Swap 0 i b) = mset b" by simp
  moreover have "take (Suc i) (zs @ drop (Suc i) b) = zs" using lz by simp
  ultimately show ?thesis using zs d by simp
qed

lemma outer_sorts:
  assumes "i \<le> length b" "desc (take i b)"
  shows "mset (insertionSort_outer byLen_Less byLen_Swap 0 (length b) i b) = mset b \<and>
         desc (insertionSort_outer byLen_Less byLen_Swap 0 (length b) i b)"
  using assms
proof (induction "length b - i" arbitrary: i b)
  case 0
  then have "i = length b" by simp
  with 0 show ?case by (simp add: insertionSort_outer.simps)
next
  case (Suc n)
  then have i: "i < length b" by simp
  let ?b = "insertionSort_inner byLen_Less byLen_Swap 0 i b"
  from inner_step [OF i Suc.prems(2)] have st: "mset ?b = mset b" "desc (take (Suc i) ?b)" by auto
  from st(1) have "size (mset ?b) = size (mset b)" by simp
  then have len: "length ?b = length b" by simp
  have "n = length ?b - Suc i" using Suc.hyps(2) len by simp
  from Suc.hyps(1) [OF this] i st(2) len
  have "mset (insertionSort_outer byLen_Less byLen_Swap 0 (length b) (Suc i) ?b) = mset ?b \<and>
        desc (insertionSort_outer byLen_Less byLen_Swap 0 (length b) (Suc i) ?b)"
    by simp
  with st(1) i show ?case by (simp add: insertionSort_outer.simps [of _ _ _ _ i])
qed

lemma Sort_byLen_sorts:
  "mset (Sort byLen_Len byLen_Less byLen_Swap b) = mset b \<and>
   desc (Sort byLen_Len byLen_Less byLen_Swap b)"
proof (cases b)
  case Nil
  then show ?thesis
    by (simp add: Sort_def insertionSort_def byLen_Len_def insertionSort_outer.simps desc_def)
next
  case (Cons x xs)
  then have "Suc 0 \<le> length b" "desc (take (Suc 0) b)" by (simp_all add: desc_def)
  from outer_sorts [OF this] show ?thesis
    by (simp add: Sort_def insertionSort_def byLen_Len_def)
qed

lemma sorts_byLen_Sort: "sorts_byLen (Sort byLen_Len byLen_Less byLen_Swap)"
  unfolding sorts_byLen_def
proof (intro allI conjI impI)
  fix b :: "'a list list"
  show "mset (Sort byLen_Len byLen_Less byLen_Swap b) = mset b"
    using Sort_byLen_sorts by blast
next
  fix b :: "'a list list" and i j
  let ?s = "Sort byLen_Len byLen_Less byLen_Swap b"
  assume "i < j \<and> j < byLen_Len ?s"
  then have "i < j" "j < length ?s" by (simp_all add: byLen_Len_def)
  moreover have "sorted_wrt (\<lambda>x y. length x \<ge> length y) ?s"
    using Sort_byLen_sorts [of b] by (simp add: desc_def)
  ultimately have "length (?s ! i) \<ge> length (?s ! j)"
    by (simp add: sorted_wrt_iff_nth_less)
  then show "\<not> byLen_Less ?s j i" by (simp add: byLen_Less_def)
qed

subsection \<open>events2gs as a whole\<close>

lemma events2gs_split:
  assumes "events2gs evs = Inr (m, h)"
  obtains h1 where "pass1 evs (Map.empty, []) = Inr (m, h1)" "pass2 evs (m, h1) = Inr (m, h)"
    "well_formed (m, h1)" "well_formed (m, h)" "map pass1_fields h = map pass1_fields h1"
proof -
  from assms obtain s1 where s1: "pass1 evs (Map.empty, []) = Inr s1" "pass2 evs s1 = Inr (m, h)"
    by (auto simp: events2gs_def split: sum.splits)
  obtain m1 h1 where [simp]: "s1 = (m1, h1)" by (cases s1)
  from s1(2) have "pass2 evs (m1, h1) = Inr (m, h)" by simp
  from pass2_fields [OF this] have m1: "m1 = m" and f: "map pass1_fields h = map pass1_fields h1"
    by auto
  have wf1: "well_formed (m, h1)" using pass1_wf [OF s1(1) wf_empty] m1 by simp
  have wf2: "well_formed (m, h)" using pass2_wf s1(2) wf1 m1 by auto
  from s1 m1 f wf1 wf2 that show thesis by simp
qed

lemma pass1_fields_nth:
  assumes "map pass1_fields h = map pass1_fields h1" "p < length h1"
  shows "pass1_fields (h ! p) = pass1_fields (h1 ! p)"
proof -
  from assms(1) have "length h = length h1" by (rule map_eq_imp_length_eq)
  with assms have "map pass1_fields h ! p = map pass1_fields h1 ! p" "p < length h" by simp_all
  then show ?thesis using assms(2) by simp
qed

lemma pass1_step_owner:
  assumes "pass1_step e (m, h) = Inr (m', h')" "m' (G e) = Some p"
  shows "p < length h' \<and> lastState (h' ! p) = states (Type e) \<and> lastStack (h' ! p) = Stk e"
  using assms(1)
proof (cases rule: pass1_step_cases)
  case skip
  with assms(2) show ?thesis by simp
next
  case (seen h1 q)
  with assms(2) have "q = p" by simp
  with seen show ?thesis by (simp add: observe_def Let_def)
qed

lemma observe_create: "Type c = EvGoCreate \<Longrightarrow> observe c r = owner_update c r"
  by (simp add: owner_update_def)

text \<open>The record of a goroutine after the first loop, from its last creation on.\<close>

lemma pass1_record:
  assumes run: "pass1 (pre @ c # post) (Map.empty, []) = Inr (m, h)"
    and c: "creates c k" and post: "\<forall>e\<in>set post. \<not> creates e k"
  shows "\<exists>p. m k = Some p \<and> p < length h \<and>
           h ! p = fold owner_update (owned k (c # post)) (newGoroutine k (Ts c))"
proof -
  from run obtain s0 where s0: "pass1 pre (Map.empty, []) = Inr s0" "pass1 (c # post) s0 = Inr (m, h)"
    by (auto simp: pass1_append split: sum.splits)
  obtain m0 h0 where [simp]: "s0 = (m0, h0)" by (cases s0)
  have wf0: "well_formed (m0, h0)" using pass1_wf [OF s0(1) wf_empty] by simp
  from s0(2) obtain s1 where s1: "pass1_step c (m0, h0) = Inr s1" "pass1 post s1 = Inr (m, h)"
    by (auto split: sum.splits)
  obtain m1 h1 where [simp]: "s1 = (m1, h1)" by (cases s1)
  have wf1: "well_formed (m1, h1)" using pass1_step_wf s1(1) wf0 by auto
  from pass1_step_create [OF wf0 c] s1(1)
  have k1: "m1 k = Some (length h0)"
    and r1: "h1 ! length h0 = (if G c = k then observe c (newGoroutine k (Ts c)) else newGoroutine k (Ts c))"
    by auto
  from c have "Type c = EvGoCreate" by (simp add: creates_def)
  with r1 have r1': "h1 ! length h0 = fold owner_update (owned k [c]) (newGoroutine k (Ts c))"
    by (simp add: owned_def observe_create)
  from pass1_track [OF wf1 k1 post] s1(2)
  have "m k = Some (length h0)" "h ! length h0 = fold owner_update (owned k post) (h1 ! length h0)"
    by auto
  moreover have "well_formed (m, h)" using pass1_wf s1(2) wf1 by auto
  ultimately show ?thesis using r1' by (auto simp: owned_def dest: wf_bound)
qed

lemma creates_last_split:
  assumes "\<exists>e\<in>set evs. creates e k"
  obtains pre c post where "evs = pre @ c # post" "creates c k" "\<forall>e\<in>set post. \<not> creates e k"
  using assms split_list_last_prop [of evs "\<lambda>e. creates e k"] by blast

subsection \<open>The groups of uniq\<close>

lemma uniq_group_valid:
  "uniq_group md5hex es (gm, h) = Inr r \<Longrightarrow> \<forall>(k, p)\<in>set es. p < length h"
  by (induction md5hex es "(gm, h)" arbitrary: gm rule: uniq_group.induct)
     (auto simp: load_def Let_def split: if_splits)

lemma set_collect: "set (collect gm hs) = {grp. \<exists>d\<in>set hs. gm d = Some grp}"
  by (auto simp: collect_def set_range_map image_iff)

lemma uniq_groups:
  assumes srt: "sorts_byLen sort_Sort"
    and grp: "uniq_group md5hex (range_map gs ks) (Map.empty, h) = Inr (groupsMap, h1)"
    and hs: "iteration_order groupsMap hs"
  shows "h1 = h"
    and "uniq md5hex sort_Sort ks hs gs h = Inr (sort_Sort (collect groupsMap hs), h)"
    and "set (sort_Sort (collect groupsMap hs)) =
           {members md5hex h (map snd (range_map gs ks)) d | d.
              members md5hex h (map snd (range_map gs ks)) d \<noteq> []}"
proof -
  let ?ps = "map snd (range_map gs ks)"
  show h1: "h1 = h" using grp by (rule uniq_group_frame)
  from grp show "uniq md5hex sort_Sort ks hs gs h = Inr (sort_Sort (collect groupsMap hs), h)"
    by (simp add: uniq_def h1)
  from uniq_group_valid [OF grp] have "\<forall>(k, p)\<in>set (range_map gs ks). p < length h" .
  from uniq_group_char [OF this, of md5hex Map.empty] grp
  have gm: "groupsMap = (\<lambda>d. if members md5hex h ?ps d = [] then None
                              else Some (members md5hex h ?ps d))"
    by simp
  have "set (collect groupsMap hs) = ran groupsMap"
    using hs by (auto simp: set_collect iteration_order_def ran_def)
  also have "\<dots> = {members md5hex h ?ps d | d. members md5hex h ?ps d \<noteq> []}"
    by (auto simp: gm ran_def)
  finally show "set (sort_Sort (collect groupsMap hs)) =
           {members md5hex h ?ps d | d. members md5hex h ?ps d \<noteq> []}"
    by (simp add: sorts_byLen_set [OF srt])
qed

lemma same_group_iff:
  assumes srt: "sorts_byLen sort_Sort"
    and ks: "iteration_order gs ks"
    and grp: "uniq_group md5hex (range_map gs ks) (Map.empty, h) = Inr (groupsMap, h1)"
    and hs: "iteration_order groupsMap hs"
    and a: "gs a = Some pa" and b: "gs b = Some pb"
  shows "(\<exists>grp\<in>set (sort_Sort (collect groupsMap hs)). pa \<in> set grp \<and> pb \<in> set grp) \<longleftrightarrow>
         hash md5hex (h ! pa) = hash md5hex (h ! pb)"
proof -
  let ?ps = "map snd (range_map gs ks)"
  have pa: "pa \<in> set ?ps" and pb: "pb \<in> set ?ps"
    using ks a b by (force simp: iteration_order_def set_range_map)+
  have mem: "p \<in> set (members md5hex h ?ps d) \<longleftrightarrow> p \<in> set ?ps \<and> hash md5hex (h ! p) = d" for p d
    by (simp add: members_def)
  note G = uniq_groups(3) [OF srt grp hs]
  show ?thesis
  proof
    assume "\<exists>grp\<in>set (sort_Sort (collect groupsMap hs)). pa \<in> set grp \<and> pb \<in> set grp"
    then obtain d where "pa \<in> set (members md5hex h ?ps d)" "pb \<in> set (members md5hex h ?ps d)"
      unfolding G by blast
    then show "hash md5hex (h ! pa) = hash md5hex (h ! pb)" by (simp add: mem)
  next
    assume eq: "hash md5hex (h ! pa) = hash md5hex (h ! pb)"
    let ?g = "members md5hex h ?ps (hash md5hex (h ! pa))"
    have "pa \<in> set ?g" "pb \<in> set ?g" using pa pb eq by (simp_all add: mem)
    moreover from this have "?g \<noteq> []" by auto
    then have "?g \<in> set (sort_Sort (collect groupsMap hs))" unfolding G by blast
    ultimately show "\<exists>grp\<in>set (sort_Sort (collect groupsMap hs)). pa \<in> set grp \<and> pb \<in> set grp"
      by blast
  qed
qed

subsection \<open>Goroutines that never ran\<close>

lemma never_scheduled_split:
  assumes "never_scheduled k evs" and "created_by_another k evs"
  obtains pre c post where "evs = pre @ c # post" "creates c k" "\<forall>e\<in>set post. \<not> creates e k"
    "\<forall>e\<in>set (c # post). G e \<noteq> k"
proof -
  let ?P = "\<lambda>ev. \<not> creates ev k"
  from assms obtain c before where d: "dropWhile ?P (rev evs) = c # before"
    and own: "G c \<noteq> k" "list_all (\<lambda>ev. G ev \<noteq> k) (takeWhile ?P (rev evs))"
    by (auto simp: never_scheduled_def created_by_another_def split: list.splits)
  from d have c: "creates c k" using hd_dropWhile [of ?P "rev evs"] by auto
  have "rev evs = takeWhile ?P (rev evs) @ c # before"
    using d takeWhile_dropWhile_id [of ?P "rev evs"] by simp
  then have "rev (rev evs) = rev (takeWhile ?P (rev evs) @ c # before)" by simp
  then have evs: "evs = rev before @ c # rev (takeWhile ?P (rev evs))" by simp
  have post: "\<forall>e\<in>set (rev (takeWhile ?P (rev evs))). \<not> creates e k"
    by (auto dest: set_takeWhileD)
  have "\<forall>e\<in>set (c # rev (takeWhile ?P (rev evs))). G e \<noteq> k"
    using own by (simp add: list_all_iff)
  with evs c post that show thesis by blast
qed

lemma never_scheduled_record:
  assumes run: "events2gs evs = Inr (m, h)" and ns: "never_scheduled k evs"
    and other: "created_by_another k evs"
  shows "\<exists>p. m k = Some p \<and> p < length h \<and> name (h ! p) = [] \<and> lastState (h ! p) = [] \<and>
           lastStack (h ! p) = [] \<and> destroy (h ! p) = 0"
proof -
  from run obtain h1 where p1: "pass1 evs (Map.empty, []) = Inr (m, h1)"
    and f: "map pass1_fields h = map pass1_fields h1"
    by (rule events2gs_split)
  from ns obtain pre c post where split: "evs = pre @ c # post" and c: "creates c k"
    and post: "\<forall>e\<in>set post. \<not> creates e k" and own: "\<forall>e\<in>set (c # post). G e \<noteq> k"
    using other by (rule never_scheduled_split)
  from own have "owned k (c # post) = []" by (auto simp: owned_def filter_empty_conv)
  then have "fold owner_update (owned k (c # post)) (newGoroutine k (Ts c)) = newGoroutine k (Ts c)"
    by (simp only: fold_simps)
  with pass1_record [OF p1 [unfolded split] c post]
  obtain p where p: "m k = Some p" "p < length h1" "h1 ! p = newGoroutine k (Ts c)" by metis
  from f have len: "length h = length h1" by (rule map_eq_imp_length_eq)
  from pass1_fields_nth [OF f p(2)] p(3)
  have "pass1_fields (h ! p) = pass1_fields (newGoroutine k (Ts c))" by simp
  then have "name (h ! p) = [] \<and> lastState (h ! p) = [] \<and> lastStack (h ! p) = [] \<and> destroy (h ! p) = 0"
    by (simp add: pass1_fields_def newGoroutine_def)
  with p(1,2) len show ?thesis by simp
qed

subsection \<open>Running the examples\<close>

lemmas run_events2gs =
  events2gs_def pass1_step_def kind_specific_def EvGoCreate_def EvGoEnd_def modify_def
  observe_def states_def states_table_def newGoroutine_def pass2_step_def Let_def

lemmas run_uniq =
  uniq_def load_def hash_def Stack_String_def Frame_String_def string_of_int_def
  string_of_nat.simps digit_char_def collect_def insertion_sort_def Let_def

lemma events2gs_trace0:
  "events2gs trace0 = Inr ([2 \<mapsto> 0, 3 \<mapsto> 1, 4 \<mapsto> 2], [blocked 2 10, blocked 3 20, ended 4])"
  by (simp add: trace0_def start_of_def events2gs_def pass1_step_def kind_specific_def
      EvGoCreate_def EvGoEnd_def modify_def observe_def states_def states_table_def
      newGoroutine_def pass2_step_def Let_def blocked_def ended_def f_main_def f_worker_def)
     (simp add: numeral_2_eq_2)

lemma pass1_trace0:
  "pass1 trace0 (Map.empty, [])
     = Inr ([2 \<mapsto> 0, 3 \<mapsto> 1, 4 \<mapsto> 2], [unlinked (blocked 2 10), unlinked (blocked 3 20), unlinked (ended 4)])"
  by (simp add: trace0_def start_of_def run_events2gs blocked_def ended_def f_main_def
        f_worker_def unlinked_def)
     (simp add: numeral_2_eq_2)

section \<open>The properties\<close>

text \<open>
  C1. A termination event whose goroutine was never created is not skipped: the first loop
  reads \<open>goroutines[ev.G]\<close>, gets nil and writes \<open>destroy\<close> through it before the
  \<open>found\<close> check of the same iteration is reached. On the trace that holds only the end
  of the unknown goroutine 99, \<open>events2gs\<close> stops with a nil dereference.
\<close>

theorem events2gs_end_of_unknown_panics:
  "events2gs [Event EvGoEnd 40 99 [] [0, 0, 0] None] = Inl NilDereference"
  by (simp add: events2gs_def pass1_step_def kind_specific_def)

text \<open>
  C2, as stated, fails: \<open>unfinishedGs\<close> tests \<open>destroy\<close> against zero, and a termination
  event can carry the timestamp zero. Goroutine 2 below is ended by an event and is still in
  the output of the filter.
\<close>

theorem unfinished_although_ended:
  "ends (Event EvGoEnd 0 2 [] [0, 0, 0] None) 2 \<and>
   events2gs [Event EvGoCreate 0 1 [f_main] [2, 0, 0] None, Event EvGoEnd 0 2 [] [0, 0, 0] None]
     = Inr ([2 \<mapsto> 0], [(newGoroutine 2 0)\<lparr>lastState := ''EvGoEnd''\<rparr>]) \<and>
   unfinishedGs [2] [2 \<mapsto> 0] [(newGoroutine 2 0)\<lparr>lastState := ''EvGoEnd''\<rparr>]
     = Inr ([2 \<mapsto> 0], [(newGoroutine 2 0)\<lparr>lastState := ''EvGoEnd''\<rparr>])"
  by (simp add: ends_def run_events2gs unfinishedGs_def load_def)

text \<open>
  C2, amended. When \<open>events2gs\<close> returns, every termination event of the trace has a
  timestamp other than zero and the identifier \<open>k\<close> of the mapping is created by at most
  one event, then \<open>k\<close> is in the output of \<open>unfinishedGs\<close> if and only if no event of the
  trace ends \<open>k\<close>.
\<close>

theorem unfinished_iff_never_ended:
  assumes run: "events2gs evs = Inr (m, h)" and ks: "iteration_order m ks" and k: "m k = Some p"
    and ts: "\<forall>e\<in>set evs. Type e = EvGoEnd \<longrightarrow> Ts e \<noteq> 0"
    and once: "length (filter (\<lambda>e. creates e k) evs) \<le> 1"
  shows "\<exists>unfinished. unfinishedGs ks m h = Inr (unfinished, h) \<and>
           (unfinished k = Some p \<longleftrightarrow> \<not> (\<exists>e\<in>set evs. ends e k))"
proof -
  from run obtain h1 where p1: "pass1 evs (Map.empty, []) = Inr (m, h1)"
    and wf: "well_formed (m, h)" and f: "map pass1_fields h = map pass1_fields h1"
    by (rule events2gs_split)
  from pass1_dom [OF p1] k have "\<exists>e\<in>set evs. creates e k" by auto
  then obtain pre c post where split: "evs = pre @ c # post" and c: "creates c k"
    and post: "\<forall>e\<in>set post. \<not> creates e k"
    by (rule creates_last_split)
  have pre: "\<forall>e\<in>set pre. \<not> creates e k"
  proof (rule ccontr)
    assume "\<not> (\<forall>e\<in>set pre. \<not> creates e k)"
    then have "filter (\<lambda>e. creates e k) pre \<noteq> []" by (auto simp: filter_empty_conv)
    then have "length (filter (\<lambda>e. creates e k) pre) \<ge> 1" by (simp add: Suc_leI)
    with once c split show False by simp
  qed
  from p1 split obtain s0 where s0: "pass1 pre (Map.empty, []) = Inr s0"
    by (auto simp: pass1_append split: sum.splits)
  obtain m0 h0 where [simp]: "s0 = (m0, h0)" by (cases s0)
  from pass1_absent [OF _ pre] s0 have nopre: "\<forall>e\<in>set pre. \<not> ends e k" by auto
  from pass1_record [OF p1 [unfolded split] c post] k
  have p: "p < length h1"
    and r: "h1 ! p = fold owner_update (owned k (c # post)) (newGoroutine k (Ts c))" by auto
  have "\<forall>e\<in>set (owned k (c # post)). Type e = EvGoEnd \<longrightarrow> Ts e \<noteq> 0"
    using ts split by (auto simp: owned_def)
  from fold_owner_update_destroy [OF this, of "newGoroutine k (Ts c)"] r
  have "destroy (h1 ! p) = 0 \<longleftrightarrow> (\<forall>e\<in>set (owned k (c # post)). Type e \<noteq> EvGoEnd)"
    by (simp add: newGoroutine_def)
  also have "\<dots> \<longleftrightarrow> \<not> (\<exists>e\<in>set (c # post). ends e k)"
    by (auto simp: owned_def ends_def)
  also have "\<dots> \<longleftrightarrow> \<not> (\<exists>e\<in>set evs. ends e k)"
    using nopre split by auto
  finally have d1: "destroy (h1 ! p) = 0 \<longleftrightarrow> \<not> (\<exists>e\<in>set evs. ends e k)" .
  from pass1_fields_nth [OF f p] have "destroy (h ! p) = destroy (h1 ! p)"
    by (simp add: pass1_fields_def)
  with d1 have d: "destroy (h ! p) = 0 \<longleftrightarrow> \<not> (\<exists>e\<in>set evs. ends e k)" by simp
  from ks have "dom m \<subseteq> set ks" by (simp add: iteration_order_def)
  from unfinishedGs_char [OF wf this] have "unfinishedGs ks m h = Inr (alive m h, h)" .
  moreover have "alive m h k = Some p \<longleftrightarrow> \<not> (\<exists>e\<in>set evs. ends e k)"
    using k d by (simp add: alive_def)
  ultimately show ?thesis by blast
qed

theorem unfinished_iff_never_ended_witness:
  "events2gs trace0 = Inr ([2 \<mapsto> 0, 3 \<mapsto> 1, 4 \<mapsto> 2], [blocked 2 10, blocked 3 20, ended 4]) \<and>
   iteration_order [2 \<mapsto> 0, 3 \<mapsto> 1, 4 \<mapsto> (2 :: ptr)] [2, 3, 4 :: 64 word] \<and>
   unfinishedGs [2, 3, 4] [2 \<mapsto> 0, 3 \<mapsto> 1, 4 \<mapsto> 2] [blocked 2 10, blocked 3 20, ended 4]
     = Inr ([2 \<mapsto> 0, 3 \<mapsto> 1], [blocked 2 10, blocked 3 20, ended 4]) \<and>
   list_all (\<lambda>e. \<not> ends e 3) trace0"
proof -
  have ks: "iteration_order [2 \<mapsto> 0, 3 \<mapsto> 1, 4 \<mapsto> (2 :: ptr)] [2, 3, 4 :: 64 word]"
    by (auto simp: iteration_order_def)
  have k: "[2 \<mapsto> 0, 3 \<mapsto> 1, 4 \<mapsto> (2 :: ptr)] (3 :: 64 word) = Some 1" by simp
  have ts: "\<forall>e\<in>set trace0. Type e = EvGoEnd \<longrightarrow> Ts e \<noteq> 0"
    by (simp add: trace0_def start_of_def EvGoCreate_def EvGoEnd_def)
  have once: "length (filter (\<lambda>e. creates e 3) trace0) \<le> 1"
    by (simp add: trace0_def start_of_def creates_def EvGoCreate_def EvGoEnd_def)
  have u: "unfinishedGs [2, 3, 4] [2 \<mapsto> 0, 3 \<mapsto> 1, 4 \<mapsto> 2] [blocked 2 10, blocked 3 20, ended 4]
     = Inr ([2 \<mapsto> 0, 3 \<mapsto> 1], [blocked 2 10, blocked 3 20, ended 4])"
    by (simp add: unfinishedGs_def load_def blocked_def ended_def)
  from unfinished_iff_never_ended [OF events2gs_trace0 ks k ts once]
  obtain unfinished where
    "unfinishedGs [2, 3, 4] [2 \<mapsto> 0, 3 \<mapsto> 1, 4 \<mapsto> 2] [blocked 2 10, blocked 3 20, ended 4]
       = Inr (unfinished, [blocked 2 10, blocked 3 20, ended 4])"
    and iff: "unfinished 3 = Some 1 \<longleftrightarrow> \<not> (\<exists>e\<in>set trace0. ends e 3)"
    by blast
  with u have "unfinished = [2 \<mapsto> 0, 3 \<mapsto> 1]" by simp
  then have "unfinished 3 = Some 1" by simp
  with iff have "\<not> (\<exists>e\<in>set trace0. ends e 3)" by simp
  then have "list_all (\<lambda>e. \<not> ends e 3) trace0" by (simp add: list_all_iff)
  with events2gs_trace0 ks u show ?thesis by simp
qed

text \<open>
  C3, as stated, fails: an event whose owner no creation event names is skipped, so the
  owner of the only event below is not in the mapping.
\<close>

theorem owner_never_created_is_absent:
  "G (Event 14 5 7 [f_worker] [0, 0, 0] None) = 7 \<and>
   events2gs [Event 14 5 7 [f_worker] [0, 0, 0] None] = Inr (Map.empty, []) \<and>
   record_of (events2gs [Event 14 5 7 [f_worker] [0, 0, 0] None]) 7 = None"
  by (simp add: run_events2gs record_of_def)

text \<open>
  C3, amended. Let \<open>e\<close> be the last event owned by \<open>k\<close>. When \<open>events2gs\<close> returns, some
  event up to and including \<open>e\<close> creates \<open>k\<close> and no event after \<open>e\<close> creates it again, then
  \<open>k\<close> is in the mapping, its \<open>lastState\<close> is the name of the kind of \<open>e\<close> and its
  \<open>lastStack\<close> is the stack of \<open>e\<close>.
\<close>

theorem last_event_recorded:
  assumes run: "events2gs (pre @ e # post) = Inr (m, h)"
    and owner: "G e = k" and last: "\<forall>x\<in>set post. G x \<noteq> k"
    and created: "\<exists>c\<in>set (pre @ [e]). creates c k"
    and once: "\<forall>x\<in>set post. \<not> creates x k"
  shows "\<exists>p. m k = Some p \<and> p < length h \<and>
           lastState (h ! p) = states (Type e) \<and> lastStack (h ! p) = Stk e"
proof -
  from run obtain h1 where p1: "pass1 (pre @ e # post) (Map.empty, []) = Inr (m, h1)"
    and f: "map pass1_fields h = map pass1_fields h1"
    by (rule events2gs_split)
  from p1 obtain s0 where s0: "pass1 pre (Map.empty, []) = Inr s0" "pass1 (e # post) s0 = Inr (m, h1)"
    by (auto simp: pass1_append split: sum.splits)
  obtain m0 h0 where [simp]: "s0 = (m0, h0)" by (cases s0)
  have wf0: "well_formed (m0, h0)" using pass1_wf [OF s0(1) wf_empty] by simp
  from s0(2) obtain s1 where s1: "pass1_step e (m0, h0) = Inr s1" "pass1 post s1 = Inr (m, h1)"
    by (auto split: sum.splits)
  obtain m1 h1' where [simp]: "s1 = (m1, h1')" by (cases s1)
  have wf1: "well_formed (m1, h1')" using pass1_step_wf s1(1) wf0 by auto
  have "dom m0 = {k. \<exists>c\<in>set pre. creates c k}"
    using pass1_dom s0(1) by fastforce
  moreover have "dom m1 = dom m0 \<union> {k. creates e k}"
    using pass1_step_dom s1(1) by auto
  ultimately have "k \<in> dom m1" using created by auto
  then obtain p where k1: "m1 k = Some p" by auto
  with owner have "m1 (G e) = Some p" by simp
  from s1(1) have "pass1_step e (m0, h0) = Inr (m1, h1')" by simp
  from pass1_step_owner [OF this \<open>m1 (G e) = Some p\<close>]
  have r1: "lastState (h1' ! p) = states (Type e)" "lastStack (h1' ! p) = Stk e" by auto
  from last have "owned k post = []" by (auto simp: owned_def filter_empty_conv)
  with pass1_track [OF wf1 k1 once] s1(2)
  have k: "m k = Some p" and r: "h1 ! p = h1' ! p" by auto
  have "well_formed (m, h1)" using pass1_wf s1(2) wf1 by auto
  then have p: "p < length h1" using k by (rule wf_bound)
  from pass1_fields_nth [OF f p] r r1
  have "lastState (h ! p) = states (Type e)" "lastStack (h ! p) = Stk e"
    by (simp_all add: pass1_fields_def)
  moreover from f have "length h = length h1" by (rule map_eq_imp_length_eq)
  ultimately show ?thesis using k p by simp
qed

theorem last_event_recorded_witness:
  "events2gs trace0 = Inr ([2 \<mapsto> 0, 3 \<mapsto> 1, 4 \<mapsto> 2], [blocked 2 10, blocked 3 20, ended 4]) \<and>
   lastState (blocked 3 20) = states 23 \<and> lastStack (blocked 3 20) = [f_worker]"
proof -
  let ?pre = "take 5 trace0" and ?e = "Event 23 25 3 [f_worker] [0, 0, 0] None"
  let ?post = "drop 6 trace0"
  have split: "?pre @ ?e # ?post = trace0" by (simp add: trace0_def)
  have run: "events2gs (?pre @ ?e # ?post) = Inr ([2 \<mapsto> 0, 3 \<mapsto> 1, 4 \<mapsto> 2], [blocked 2 10, blocked 3 20, ended 4])"
    unfolding split by (rule events2gs_trace0)
  have 1: "G ?e = 3" by simp
  have 2: "\<forall>x\<in>set ?post. G x \<noteq> 3" by (simp add: trace0_def start_of_def)
  have 3: "\<exists>c\<in>set (?pre @ [?e]). creates c 3" by (simp add: trace0_def creates_def)
  have 4: "\<forall>x\<in>set ?post. \<not> creates x 3" by (simp add: trace0_def start_of_def creates_def EvGoCreate_def EvGoEnd_def)
  from last_event_recorded [OF run 1 2 3 4] events2gs_trace0
  show ?thesis by simp
qed

text \<open>
  C4, as stated, fails in the direction from the group to the fields: \<open>hash\<close> writes the
  name, the state and the stack one after the other with nothing between them, so different
  triples can give the same bytes. Even with a digest that never collides, the two goroutines
  below, of different names and different last states, are in one group.
\<close>

theorem one_group_with_different_names:
  "uniq id_digest insertion_sort [2, 3] [''main.xEvGoBlockmain.worker [main.go:20]'']
      [2 \<mapsto> 0, 3 \<mapsto> 1] [f_blocked, f_unknown]
     = Inr ([[0, 1]], [f_blocked, f_unknown]) \<and>
   name f_blocked \<noteq> name f_unknown \<and> lastState f_blocked \<noteq> lastState f_unknown"
proof -
  have "uniq id_digest insertion_sort [2, 3] [''main.xEvGoBlockmain.worker [main.go:20]'']
      [2 \<mapsto> 0, 3 \<mapsto> 1] [f_blocked, f_unknown]
     = Inr ([[0, 1]], [f_blocked, f_unknown])"
    by code_simp
  then show ?thesis by (simp add: f_blocked_def f_unknown_def)
qed

text \<open>
  C4, amended. For any two goroutines \<open>a\<close> and \<open>b\<close> of the map given to \<open>uniq\<close>, under any
  order of iteration of the two maps and any sort that keeps the promise of \<open>sort.Sort\<close>:
  \<open>a\<close> and \<open>b\<close> are in the same group if and only if \<open>hash\<close> gives them the same digest;
  in particular they are in the same group when name, last state and rendered last stack
  are equal.
\<close>

theorem same_group_iff_same_digest:
  assumes "sorts_byLen sort_Sort"
    and "iteration_order gs ks"
    and "uniq_group md5hex (range_map gs ks) (Map.empty, h) = Inr (groupsMap, h1)"
    and "iteration_order groupsMap hs"
    and "gs a = Some pa" and "gs b = Some pb"
  shows "\<exists>groupsList. uniq md5hex sort_Sort ks hs gs h = Inr (groupsList, h) \<and>
           ((\<exists>grp\<in>set groupsList. pa \<in> set grp \<and> pb \<in> set grp) \<longleftrightarrow>
              hash md5hex (h ! pa) = hash md5hex (h ! pb)) \<and>
           (name (h ! pa) = name (h ! pb) \<and> lastState (h ! pa) = lastState (h ! pb) \<and>
            Stack_String (lastStack (h ! pa)) = Stack_String (lastStack (h ! pb)) \<longrightarrow>
              (\<exists>grp\<in>set groupsList. pa \<in> set grp \<and> pb \<in> set grp))"
proof -
  note iff = same_group_iff [OF assms]
  have "name (h ! pa) = name (h ! pb) \<and> lastState (h ! pa) = lastState (h ! pb) \<and>
        Stack_String (lastStack (h ! pa)) = Stack_String (lastStack (h ! pb)) \<longrightarrow>
        hash md5hex (h ! pa) = hash md5hex (h ! pb)"
    by (simp add: hash_def)
  with iff uniq_groups(2) [OF assms(1,3,4)] show ?thesis by blast
qed

theorem same_group_iff_same_digest_witness:
  "iteration_order [2 \<mapsto> 0, 3 \<mapsto> 1, 4 \<mapsto> (2 :: ptr)] [2, 3, 4 :: 64 word] \<and>
   uniq id_digest insertion_sort [2, 3, 4] [''EvGoEnd'', worker_digest]
      [2 \<mapsto> 0, 3 \<mapsto> 1, 4 \<mapsto> 2] [blocked 2 10, blocked 3 20, ended 4]
     = Inr ([[0, 1], [2]], [blocked 2 10, blocked 3 20, ended 4]) \<and>
   hash id_digest (blocked 2 10) = hash id_digest (blocked 3 20)"
proof -
  let ?gs = "[2 \<mapsto> 0, 3 \<mapsto> 1, 4 \<mapsto> (2 :: ptr)] :: gmap"
  let ?h = "[blocked 2 10, blocked 3 20, ended 4]"
  let ?gm = "[worker_digest \<mapsto> [0, 1], ''EvGoEnd'' \<mapsto> [2 :: ptr]]"
  have ks: "iteration_order ?gs [2, 3, 4]"
    by (auto simp: iteration_order_def)
  have grp: "uniq_group id_digest (range_map ?gs [2, 3, 4]) (Map.empty, ?h) = Inr (?gm, ?h)"
    by (simp add: run_uniq blocked_def ended_def id_digest_def f_worker_def worker_digest_def)
  have hs: "iteration_order ?gm [''EvGoEnd'', worker_digest]"
    by (auto simp: iteration_order_def worker_digest_def)
  have a: "?gs 2 = Some 0" and b: "?gs 3 = Some 1" by simp_all
  have run: "uniq id_digest insertion_sort [2, 3, 4] [''EvGoEnd'', worker_digest] ?gs ?h
     = Inr ([[0, 1], [2]], ?h)"
    unfolding worker_digest_def by code_simp
  from same_group_iff_same_digest [OF sorts_byLen_insertion_sort ks grp hs a b]
  obtain groupsList where
    gl: "uniq id_digest insertion_sort [2, 3, 4] [''EvGoEnd'', worker_digest] ?gs ?h = Inr (groupsList, ?h)"
    and iff: "(\<exists>grp\<in>set groupsList. 0 \<in> set grp \<and> 1 \<in> set grp) \<longleftrightarrow>
       hash id_digest (?h ! 0) = hash id_digest (?h ! 1)"
    by blast
  from gl run have "groupsList = [[0, 1], [2]]" by simp
  then have "\<exists>grp\<in>set groupsList. 0 \<in> set grp \<and> 1 \<in> set grp" by simp
  with iff have "hash id_digest (?h ! 0) = hash id_digest (?h ! 1)" by simp
  with ks run show ?thesis by simp
qed

text \<open>
  C5, as stated, fails when two creation events link to events of the same goroutine: the
  second loop overwrites, and the parent of goroutine 3 below is the owner of the later
  event, not of the first.
\<close>

theorem parent_overwritten_by_later_link:
  "links_to (Event EvGoCreate 10 1 [f_main] [3, 0, 0] (Some (start_of 3 12))) 3 \<and>
   G (Event EvGoCreate 10 1 [f_main] [3, 0, 0] (Some (start_of 3 12))) = 1 \<and>
   map_option ParentID (record_of (events2gs
     [Event EvGoCreate 10 1 [f_main] [3, 0, 0] (Some (start_of 3 12)),
      Event EvGoCreate 20 2 [f_worker] [4, 0, 0] (Some (start_of 3 12))]) 3) = Some 2"
  by (simp add: links_to_def start_of_def run_events2gs record_of_def)

text \<open>
  C5, amended. Let \<open>e\<close> be a creation event with a link, in a trace on which the first loop
  returns. Then the second loop returns too, with the same map. If the owner of the linked
  event is in the map and no later creation event links to an event of that owner, its
  \<open>ParentID\<close> is the owner of \<open>e\<close> and its \<open>parentStack\<close> is the stack of \<open>e\<close>. If the
  owner of the linked event is not in the map, the iteration for \<open>e\<close> changes nothing.
\<close>

theorem parent_linkage:
  assumes p1: "pass1 (pre @ e # post) (Map.empty, []) = Inr (m, h1)"
    and e: "Type e = EvGoCreate" "Link e = Some l"
  shows "\<exists>h. events2gs (pre @ e # post) = Inr (m, h) \<and>
           (case m (G l) of
              None \<Rightarrow> \<forall>h0. pass2_step e (m, h0) = Inr (m, h0)
            | Some child \<Rightarrow>
                (\<forall>x\<in>set post. \<not> links_to x (G l)) \<longrightarrow>
                ParentID (h ! child) = G e \<and> parentStack (h ! child) = Stk e)"
proof -
  have wf1: "well_formed (m, h1)" using pass1_wf [OF p1 wf_empty] .
  from pass2_total [OF wf1] obtain h where p2: "pass2 (pre @ e # post) (m, h1) = Inr (m, h)"
    by blast
  with p1 have run: "events2gs (pre @ e # post) = Inr (m, h)" by (simp add: events2gs_def)
  have l: "links_to e (G l)" using e by (simp add: links_to_def)
  show ?thesis
  proof (cases "m (G l)")
    case None
    with e have "\<forall>h0. pass2_step e (m, h0) = Inr (m, h0)" by (simp add: pass2_step_def)
    with run None show ?thesis by auto
  next
    case (Some child)
    have "(\<forall>x\<in>set post. \<not> links_to x (G l)) \<longrightarrow>
                ParentID (h ! child) = G e \<and> parentStack (h ! child) = Stk e"
      using pass2_linked [OF wf1 Some l _ p2] by blast
    with run Some show ?thesis by auto
  qed
qed

theorem parent_linkage_witness:
  "events2gs trace0 = Inr ([2 \<mapsto> 0, 3 \<mapsto> 1, 4 \<mapsto> 2], [blocked 2 10, blocked 3 20, ended 4]) \<and>
   ParentID (blocked 3 20) = G (Event EvGoCreate 20 1 [f_main] [3, 0, 0] (Some (start_of 3 22))) \<and>
   parentStack (blocked 3 20) = Stk (Event EvGoCreate 20 1 [f_main] [3, 0, 0] (Some (start_of 3 22)))"
proof -
  let ?pre = "take 3 trace0" and ?e = "Event EvGoCreate 20 1 [f_main] [3, 0, 0] (Some (start_of 3 22))"
  let ?post = "drop 4 trace0"
  have split: "?pre @ ?e # ?post = trace0" by (simp add: trace0_def)
  have p1: "pass1 (?pre @ ?e # ?post) (Map.empty, [])
     = Inr ([2 \<mapsto> 0, 3 \<mapsto> 1, 4 \<mapsto> 2], [unlinked (blocked 2 10), unlinked (blocked 3 20), unlinked (ended 4)])"
    unfolding split by (rule pass1_trace0)
  have post: "\<forall>x\<in>set ?post. \<not> links_to x (G (start_of 3 22))"
    by (simp add: trace0_def start_of_def links_to_def EvGoCreate_def EvGoEnd_def)
  from parent_linkage [OF p1, of "start_of 3 22"] post events2gs_trace0
  show ?thesis by (simp add: split start_of_def blocked_def)
qed



text \<open>
  C7. On the empty trace nothing fails: \<open>events2gs\<close> returns the empty map, \<open>unfinishedGs\<close>
  returns the empty map, \<open>uniq\<close> returns no group, and so do the three in a row.
\<close>

theorem empty_input:
  assumes "sorts_byLen sort_Sort"
  shows "events2gs [] = Inr (Map.empty, []) \<and>
         unfinishedGs ks Map.empty [] = Inr (Map.empty, []) \<and>
         uniq md5hex sort_Sort ks' hs Map.empty [] = Inr ([], []) \<and>
         grouped md5hex sort_Sort ks ks' hs [] = Inr ([], [])"
  using sorts_byLen_Nil [OF assms]
  by (simp add: events2gs_def unfinishedGs_def uniq_def grouped_def collect_def)

theorem empty_input_witness:
  "sorts_byLen (insertion_sort :: ptr list list \<Rightarrow> ptr list list) \<and>
   events2gs [] = Inr (Map.empty, []) \<and>
   unfinishedGs [] Map.empty [] = Inr (Map.empty, []) \<and>
   uniq id_digest insertion_sort [] [] Map.empty [] = Inr ([], []) \<and>
   grouped id_digest insertion_sort [] [] [] [] = Inr ([], [])"
  using empty_input [OF sorts_byLen_insertion_sort, of "[]" id_digest "[]" "[]"]
    sorts_byLen_insertion_sort
  by blast

text \<open>
  C8, as stated, fails: the program takes the empty string for a name that is not set. When
  the innermost frame of the first stack has the empty function name, the name stays unset
  and a later event sets it: the name of goroutine 2 below is not the function name of its
  first stack.
\<close>

theorem name_not_from_first_stack:
  "first_stack_name 2
     [Event EvGoCreate 10 1 [f_main] [2, 0, 0] None,
      Event 14 12 2 [\<lparr>Fn = [], File = ''main.go'', Line = 20\<rparr>] [0, 0, 0] None,
      Event 23 15 2 [f_worker] [0, 0, 0] None] = [] \<and>
   map_option name (record_of (events2gs
     [Event EvGoCreate 10 1 [f_main] [2, 0, 0] None,
      Event 14 12 2 [\<lparr>Fn = [], File = ''main.go'', Line = 20\<rparr>] [0, 0, 0] None,
      Event 23 15 2 [f_worker] [0, 0, 0] None]) 2) = Some ''main.worker''"
  by (simp add: first_stack_name_def owned_def run_events2gs record_of_def f_worker_def)

text \<open>
  C8, amended. Let \<open>c\<close> be the last event that creates \<open>k\<close>. The name of \<open>k\<close> is the function
  name of the innermost frame of the first event, among \<open>c\<close> and the later events owned by
  \<open>k\<close>, whose stack is not empty and whose innermost function name is not empty; it is
  empty when there is no such event. And a name that is not empty after any prefix of the
  trace is the name of that record at the end.
\<close>

theorem name_from_first_naming_stack:
  assumes run: "events2gs (pre @ c # post) = Inr (m, h)"
    and c: "creates c k" and post: "\<forall>e\<in>set post. \<not> creates e k"
  shows "(\<exists>p. m k = Some p \<and> p < length h \<and>
            name (h ! p) =
              (case find gives_name (owned k (c # post)) of None \<Rightarrow> [] | Some e \<Rightarrow> Fn (Stk e ! 0))) \<and>
         (\<forall>xs ys m1 h1 q.
            pre @ c # post = xs @ ys \<and> pass1 xs (Map.empty, []) = Inr (m1, h1) \<and>
            q < length h1 \<and> name (h1 ! q) \<noteq> [] \<longrightarrow> name (h ! q) = name (h1 ! q))"
proof
  from run obtain h1 where p1: "pass1 (pre @ c # post) (Map.empty, []) = Inr (m, h1)"
    and f: "map pass1_fields h = map pass1_fields h1"
    by (rule events2gs_split)
  from f have len: "length h = length h1" by (rule map_eq_imp_length_eq)
  from pass1_record [OF p1 c post] obtain p where p: "m k = Some p" "p < length h1"
    "h1 ! p = fold owner_update (owned k (c # post)) (newGoroutine k (Ts c))" by blast
  from pass1_fields_nth [OF f p(2)] have "name (h ! p) = name (h1 ! p)"
    by (simp add: pass1_fields_def)
  with p len show "\<exists>p. m k = Some p \<and> p < length h \<and>
            name (h ! p) =
              (case find gives_name (owned k (c # post)) of None \<Rightarrow> [] | Some e \<Rightarrow> Fn (Stk e ! 0))"
    by (auto simp: fold_owner_update_name newGoroutine_def)
  show "\<forall>xs ys m1 h1 q.
            pre @ c # post = xs @ ys \<and> pass1 xs (Map.empty, []) = Inr (m1, h1) \<and>
            q < length h1 \<and> name (h1 ! q) \<noteq> [] \<longrightarrow> name (h ! q) = name (h1 ! q)"
  proof (intro allI impI, elim conjE)
    fix xs ys m1 h1' q
    assume split: "pre @ c # post = xs @ ys" and x: "pass1 xs (Map.empty, []) = Inr (m1, h1')"
      and q: "q < length h1'" and n: "name (h1' ! q) \<noteq> []"
    from p1 split x have "pass1 ys (m1, h1') = Inr (m, h1)" by (simp add: pass1_append)
    from pass1_name_kept [OF this q n] have *: "length h1' \<le> length h1" "name (h1 ! q) = name (h1' ! q)"
      by auto
    with q have "q < length h1" by simp
    from pass1_fields_nth [OF f this] * show "name (h ! q) = name (h1' ! q)"
      by (simp add: pass1_fields_def)
  qed
qed

theorem name_from_first_naming_stack_witness:
  "creates (Event EvGoCreate 20 1 [f_main] [3, 0, 0] (Some (start_of 3 22))) 3 \<and>
   events2gs trace0 = Inr ([2 \<mapsto> 0, 3 \<mapsto> 1, 4 \<mapsto> 2], [blocked 2 10, blocked 3 20, ended 4]) \<and>
   name (blocked 3 20) = Fn (Stk (Event 23 25 3 [f_worker] [0, 0, 0] None) ! 0)"
proof -
  let ?pre = "take 3 trace0" and ?c = "Event EvGoCreate 20 1 [f_main] [3, 0, 0] (Some (start_of 3 22))"
  let ?post = "drop 4 trace0"
  have split: "?pre @ ?c # ?post = trace0" by (simp add: trace0_def)
  have run: "events2gs (?pre @ ?c # ?post) = Inr ([2 \<mapsto> 0, 3 \<mapsto> 1, 4 \<mapsto> 2], [blocked 2 10, blocked 3 20, ended 4])"
    unfolding split by (rule events2gs_trace0)
  have c: "creates ?c 3" by (simp add: creates_def)
  have post: "\<forall>e\<in>set ?post. \<not> creates e 3"
    by (simp add: trace0_def start_of_def creates_def EvGoCreate_def EvGoEnd_def)
  from name_from_first_naming_stack [OF run c post] c events2gs_trace0
  show ?thesis by (simp add: blocked_def f_worker_def)
qed

text \<open>
  C9. \<open>unfinishedGs\<close> and \<open>uniq\<close> only read: when either returns, the store of Goroutine
  records is the store it was given, so no field of any record has changed.
\<close>

theorem filter_and_grouper_read_only:
  "(unfinishedGs ks gs h = Inr (unfinished, h') \<longrightarrow> h' = h) \<and>
   (uniq md5hex sort_Sort ks' hs gs h = Inr (groupsList, h'') \<longrightarrow> h'' = h)"
  by (auto simp: unfinishedGs_def uniq_def split: sum.splits
           dest: unfinishedGs_loop_frame uniq_group_frame)

theorem filter_and_grouper_read_only_witness:
  "unfinishedGs [2, 3, 4] [2 \<mapsto> 0, 3 \<mapsto> 1, 4 \<mapsto> 2] [blocked 2 10, blocked 3 20, ended 4]
     = Inr ([2 \<mapsto> 0, 3 \<mapsto> 1], [blocked 2 10, blocked 3 20, ended 4]) \<and>
   uniq id_digest insertion_sort [2, 3]
      [''main.workerEvGoBlockRecvmain.worker [main.go:20]'']
      [2 \<mapsto> 0, 3 \<mapsto> 1] [blocked 2 10, blocked 3 20, ended 4]
     = Inr ([[0, 1]], [blocked 2 10, blocked 3 20, ended 4])"
proof -
  have 1: "unfinishedGs [2, 3, 4] [2 \<mapsto> 0, 3 \<mapsto> 1, 4 \<mapsto> 2] [blocked 2 10, blocked 3 20, ended 4]
     = Inr ([2 \<mapsto> 0, 3 \<mapsto> 1], [blocked 2 10, blocked 3 20, ended 4])"
    by (simp add: unfinishedGs_def load_def blocked_def ended_def)
  have 2: "uniq id_digest insertion_sort [2, 3]
      [''main.workerEvGoBlockRecvmain.worker [main.go:20]'']
      [2 \<mapsto> 0, 3 \<mapsto> 1] [blocked 2 10, blocked 3 20, ended 4]
     = Inr ([[0, 1]], [blocked 2 10, blocked 3 20, ended 4])"
    by code_simp
  from filter_and_grouper_read_only
    [of "[2, 3, 4]" "[2 \<mapsto> 0, 3 \<mapsto> 1, 4 \<mapsto> 2]" "[blocked 2 10, blocked 3 20, ended 4]"
        "[2 \<mapsto> 0, 3 \<mapsto> 1]" "[blocked 2 10, blocked 3 20, ended 4]"] 1 2
  show ?thesis by blast
qed

text \<open>
  C10, as stated, fails when the event that creates a goroutine is owned by that goroutine:
  the first loop allocates the record and then, in the same iteration, finds it as the
  record of the owner and writes the state, the stack and the name of the creation event.
  Goroutine 2 below has a creation event and owns no subsequent event, and its name and
  last state are not empty.
\<close>

theorem self_created_is_not_empty:
  "never_scheduled 2 [Event EvGoCreate 7 2 [f_worker] [2, 0, 0] None] \<and>
   map_option name (record_of (events2gs [Event EvGoCreate 7 2 [f_worker] [2, 0, 0] None]) 2)
     = Some ''main.worker'' \<and>
   map_option lastState (record_of (events2gs [Event EvGoCreate 7 2 [f_worker] [2, 0, 0] None]) 2)
     = Some ''EvGoCreate'' \<and>
   map_option lastStack (record_of (events2gs [Event EvGoCreate 7 2 [f_worker] [2, 0, 0] None]) 2)
     = Some [f_worker]"
  by (simp add: never_scheduled_def creates_def run_events2gs record_of_def f_worker_def)

text \<open>
  C10, amended. A goroutine that has a creation event owned by another goroutine and owns
  no subsequent event has, when \<open>events2gs\<close> returns, the empty name, the empty last state
  and the empty last stack. Two such goroutines are both unfinished, get the same digest,
  and \<open>uniq\<close> puts them in one group, under any order of iteration and any sort that keeps
  the promise of \<open>sort.Sort\<close>.
\<close>

theorem never_scheduled_one_group:
  assumes run: "events2gs evs = Inr (m, h)"
    and k1: "never_scheduled k1 evs" and k2: "never_scheduled k2 evs"
    and c1: "created_by_another k1 evs" and c2: "created_by_another k2 evs"
    and ks: "iteration_order m ks"
    and unf: "unfinishedGs ks m h = Inr (unfinished, h')"
    and ks': "iteration_order unfinished ks'"
    and grp: "uniq_group md5hex (range_map unfinished ks') (Map.empty, h') = Inr (groupsMap, h'')"
    and hs: "iteration_order groupsMap hs"
    and srt: "sorts_byLen sort_Sort"
  shows "\<exists>p1 p2 groupsList.
           m k1 = Some p1 \<and> name (h ! p1) = [] \<and> lastState (h ! p1) = [] \<and> lastStack (h ! p1) = [] \<and>
           m k2 = Some p2 \<and> name (h ! p2) = [] \<and> lastState (h ! p2) = [] \<and> lastStack (h ! p2) = [] \<and>
           unfinished k1 = Some p1 \<and> unfinished k2 = Some p2 \<and>
           hash md5hex (h ! p1) = hash md5hex (h ! p2) \<and>
           grouped md5hex sort_Sort ks ks' hs evs = Inr (groupsList, h) \<and>
           (\<exists>grp\<in>set groupsList. p1 \<in> set grp \<and> p2 \<in> set grp)"
proof -
  from run obtain h1 where wf: "well_formed (m, h)" by (rule events2gs_split)
  from never_scheduled_record [OF run k1 c1] obtain p1 where p1: "m k1 = Some p1"
    "name (h ! p1) = []" "lastState (h ! p1) = []" "lastStack (h ! p1) = []" "destroy (h ! p1) = 0"
    by blast
  from never_scheduled_record [OF run k2 c2] obtain p2 where p2: "m k2 = Some p2"
    "name (h ! p2) = []" "lastState (h ! p2) = []" "lastStack (h ! p2) = []" "destroy (h ! p2) = 0"
    by blast
  from ks have "dom m \<subseteq> set ks" by (simp add: iteration_order_def)
  from unfinishedGs_char [OF wf this] unf have u: "unfinished = alive m h" "h' = h" by auto
  from p1 p2 have u1: "unfinished k1 = Some p1" and u2: "unfinished k2 = Some p2"
    by (simp_all add: u alive_def)
  have hash: "hash md5hex (h ! p1) = hash md5hex (h ! p2)" using p1 p2 by (simp add: hash_def)
  from grp have grp': "uniq_group md5hex (range_map unfinished ks') (Map.empty, h) = Inr (groupsMap, h'')"
    by (simp add: u)
  from same_group_iff [OF srt ks' grp' hs u1 u2] hash
  have same: "\<exists>grp\<in>set (sort_Sort (collect groupsMap hs)). p1 \<in> set grp \<and> p2 \<in> set grp" by simp
  from uniq_groups(2) [OF srt grp' hs] run unf
  have g: "grouped md5hex sort_Sort ks ks' hs evs = Inr (sort_Sort (collect groupsMap hs), h)"
    by (simp add: grouped_def u)
  show ?thesis
    by (rule exI [of _ p1], rule exI [of _ p2], rule exI [of _ "sort_Sort (collect groupsMap hs)"])
       (simp add: p1 p2 u1 u2 hash g same)
qed

theorem never_scheduled_one_group_witness:
  "never_scheduled 2 trace_idle \<and> never_scheduled 3 trace_idle \<and>
   created_by_another 2 trace_idle \<and> created_by_another 3 trace_idle \<and>
   events2gs trace_idle = Inr ([2 \<mapsto> 0, 3 \<mapsto> 1], [newGoroutine 2 10, newGoroutine 3 20]) \<and>
   grouped id_digest insertion_sort [2, 3] [2, 3] [[]] trace_idle
     = Inr ([[0, 1]], [newGoroutine 2 10, newGoroutine 3 20])"
proof -
  let ?m = "[2 \<mapsto> 0, 3 \<mapsto> (1 :: ptr)] :: gmap"
  let ?h = "[newGoroutine 2 10, newGoroutine 3 20]"
  have run: "events2gs trace_idle = Inr (?m, ?h)"
    by (simp add: trace_idle_def run_events2gs)
  have k1: "never_scheduled 2 trace_idle" and k2: "never_scheduled 3 trace_idle"
    by (simp_all add: never_scheduled_def trace_idle_def creates_def)
  have c1: "created_by_another 2 trace_idle" and c2: "created_by_another 3 trace_idle"
    by (simp_all add: created_by_another_def trace_idle_def creates_def)
  have ks: "iteration_order ?m [2, 3]" by (auto simp: iteration_order_def)
  have unf: "unfinishedGs [2, 3] ?m ?h = Inr (?m, ?h)"
    by (simp add: unfinishedGs_def load_def newGoroutine_def)
  have grp: "uniq_group id_digest (range_map ?m [2, 3]) (Map.empty, ?h) = Inr ([[] \<mapsto> [0, 1]], ?h)"
    by (simp add: run_uniq newGoroutine_def id_digest_def)
  have hs: "iteration_order [[] \<mapsto> [0, 1 :: ptr]] [[] :: string]" by (auto simp: iteration_order_def)
  have uq: "uniq id_digest insertion_sort [2, 3] [[]] ?m ?h = Inr ([[0, 1]], ?h)"
    by code_simp
  have g: "grouped id_digest insertion_sort [2, 3] [2, 3] [[]] trace_idle = Inr ([[0, 1]], ?h)"
    by (simp only: grouped_def run unf uq sum.case prod.case)
  from never_scheduled_one_group [OF run k1 k2 c1 c2 ks unf ks grp hs sorts_byLen_insertion_sort]
    g run k1 k2 c1 c2
  show ?thesis by simp
qed

end
